theory Spec2Isabelle
  imports Complex_Main "HOL-Library.AList" "HOL-Library.Sublist" "HOL-Library.Multiset"
begin

section \<open>Presence tracker: a shallow embedding of the reconciliation engine\<close>

text \<open>
  The development follows \<^verbatim>\<open>src/presence_tracker.py\<close> and
  \<^verbatim>\<open>src/bluetooth_scanner.py\<close>. Conventions:

  \<^item> A Python name with a leading underscore loses it (\<^verbatim>\<open>_submit_convex_call\<close> is
    \<open>submit_convex_call\<close>); a name that clashes with a HOL constant gets a suffix.
  \<^item> Module-level variables are the fields of the record \<open>world\<close>; a function that
    mutates them takes the world and returns the new one.
  \<^item> Everything the program learns from outside (clock readings, replies of the store,
    D-Bus replies) comes from the record \<open>env\<close> of oracles. The \<open>n\<close>-th consultation
    of the outside world reads position \<open>n\<close> of the oracle concerned; the counter is the
    field \<open>tick\<close>. Clock readings that are only printed in log lines are left out.
  \<^item> Everything the program does to the outside is appended to the field \<open>trace\<close>.
  \<^item> Python floats are idealised as real numbers with exact arithmetic; the one place
    where Python raises on a float conversion is a branch of the model.
  \<^item> A Python set is a list without repetitions. Where the program iterates a set, the
    order is the one of the hash table, which for strings changes with the hash seed of
    the process: it comes from the oracle \<open>hash_order\<close> (see \<open>set_items\<close>).
  \<^item> Log output is not modelled.
\<close>

subsection \<open>Configuration\<close>

record config =
  MAX_CONVEX_CONSECUTIVE_TIMEOUTS :: int
  CONVEX_CIRCUIT_OPEN_SECONDS :: real
  FIRST_SEEN_DEBOUNCE_SECONDS :: int
  RSSI_FRESHNESS_SECONDS :: int
  MAX_RECONNECT_PER_CYCLE :: int
  PROBE_BACKOFF_BASE_SECONDS :: real
  PROBE_BACKOFF_MAX_SECONDS :: real
  PROBE_CONNECT_TIMEOUT_SECONDS :: int

text \<open>The defaults the two modules give to their environment variables.\<close>

definition default_config :: config where
  "default_config =
     \<lparr> MAX_CONVEX_CONSECUTIVE_TIMEOUTS = 3,
       CONVEX_CIRCUIT_OPEN_SECONDS = 30,
       FIRST_SEEN_DEBOUNCE_SECONDS = 10,
       RSSI_FRESHNESS_SECONDS = 15,
       MAX_RECONNECT_PER_CYCLE = 4,
       PROBE_BACKOFF_BASE_SECONDS = 5,
       PROBE_BACKOFF_MAX_SECONDS = 300,
       PROBE_CONNECT_TIMEOUT_SECONDS = 5 \<rparr>"

definition RECONNECT_COOLDOWN :: real where
  "RECONNECT_COOLDOWN = 30"

subsection \<open>The outside world\<close>

text \<open>
  What a call handed to the worker pool does within the query timeout: it returns a
  Python value (\<open>None\<close> included), it is still running when the timeout expires, or it
  raises.
\<close>

datatype 'a outcome = Returned "'a option" | TimedOut | Raised

text \<open>
  A dictionary key that may be missing, present with the value \<open>None\<close>, or present with
  a value: \<^verbatim>\<open>d.get(k, default)\<close> tells the first two apart.
\<close>

datatype 'a field = Missing | Null | Val 'a

text \<open>
  A record of the store as \<^verbatim>\<open>getDevices\<close> returns it (the keys the code reads). The
  key \<^verbatim>\<open>name\<close> is the field \<open>display_name\<close>: the snapshot records below have a key
  \<^verbatim>\<open>name\<close> of their own.
\<close>

record known_device =
  macAddress :: "string option"
  display_name :: "string field"
  firstName :: "string option"
  lastName :: "string option"
  status :: "string field"
  pendingRegistration :: bool

text \<open>The calls the tracker sends to the store, with their arguments.\<close>

datatype store_call =
    GetDevices
  | RegisterPendingDevice string string
  | UpdateDeviceStatus string string
  | LogAttendance string "string option" string
  | CleanupExpiredGracePeriods

text \<open>The properties of a BlueZ \<^verbatim>\<open>Device1\<close> object, and a managed object.\<close>

record device_props =
  Address :: "string option"
  Name :: "string option"
  Alias :: "string option"
  Connected :: "bool option"
  Paired :: "bool option"
  Trusted :: "bool option"
  RSSI :: "int option"
  TxPower :: "int option"

record managed_object =
  object_path :: string
  device1 :: "device_props option"
  adapter1 :: bool

text \<open>What a D-Bus method call does within the hard timeout.\<close>

datatype dbus_outcome = Done | Failed string | Hung

text \<open>What running \<^verbatim>\<open>bluetoothctl\<close> does.\<close>

datatype ctl_outcome = Exited int string string | CtlTimeout | CtlMissing

datatype event =
    Submit store_call
  | GetManagedObjects
  | SetTrusted string
  | DeviceMethod string string
  | Bluetoothctl string string
  | ReadConnected string
  | Sleep real
  | RemoveDevice string string

record env =
  monotonic :: "nat \<Rightarrow> real"
  wall_time :: "nat \<Rightarrow> real"
  devices_reply :: "nat \<Rightarrow> known_device list outcome"
  mutation_reply :: "nat \<Rightarrow> unit outcome"
  managed_objects :: "nat \<Rightarrow> managed_object list option"
  connected_property :: "nat \<Rightarrow> bool option"
  set_trusted_reply :: "nat \<Rightarrow> bool"
  method_reply :: "nat \<Rightarrow> dbus_outcome"
  bluetoothctl_reply :: "nat \<Rightarrow> ctl_outcome"
  remove_reply :: "nat \<Rightarrow> bool"
  hash_order :: "string \<Rightarrow> nat"

subsection \<open>Program state\<close>

record world =
  convex_consecutive_timeouts :: int
  convex_circuit_open_until :: real
  failed_registrations :: "string set"
  device_previous_status :: "string \<rightharpoonup> string"
  device_first_seen :: "string \<rightharpoonup> real"
  last_connection_attempts :: "string \<rightharpoonup> real"
  failed_connection_attempts :: "string \<rightharpoonup> int"
  next_probe_allowed_at :: "string \<rightharpoonup> real"
  last_rssi_refresh_time :: real
  adapter_path_cache :: "string option"
  tick :: nat
  trace :: "event list"

text \<open>The values the modules give their globals when they are loaded.\<close>

definition initial_world :: world where
  "initial_world =
     \<lparr> convex_consecutive_timeouts = 0,
       convex_circuit_open_until = 0,
       failed_registrations = {},
       device_previous_status = Map.empty,
       device_first_seen = Map.empty,
       last_connection_attempts = Map.empty,
       failed_connection_attempts = Map.empty,
       next_probe_allowed_at = Map.empty,
       last_rssi_refresh_time = 0,
       adapter_path_cache = None,
       tick = 0,
       trace = [] \<rparr>"

definition advance :: "world \<Rightarrow> world" where
  "advance w = w\<lparr>tick := Suc (tick w)\<rparr>"

definition emit :: "event \<Rightarrow> world \<Rightarrow> world" where
  "emit e w = w\<lparr>trace := trace w @ [e]\<rparr>"

text \<open>An environment in which nothing happens: used to build concrete scenarios.\<close>

definition quiet_env :: env where
  "quiet_env =
     \<lparr> monotonic = (\<lambda>n. 0),
       wall_time = (\<lambda>n. 0),
       devices_reply = (\<lambda>n. Raised),
       mutation_reply = (\<lambda>n. Raised),
       managed_objects = (\<lambda>n. None),
       connected_property = (\<lambda>n. None),
       set_trusted_reply = (\<lambda>n. False),
       method_reply = (\<lambda>n. Hung),
       bluetoothctl_reply = (\<lambda>n. CtlMissing),
       remove_reply = (\<lambda>n. False),
       hash_order = (\<lambda>mac. 0) \<rparr>"

text \<open>
  The order in which Python iterates a set of strings (\<^verbatim>\<open>for x in s\<close>, \<^verbatim>\<open>list(s)\<close>,
  \<^verbatim>\<open>sorted(s, ...)\<close>): the language does not fix it. The elements are listed by their
  rank under the oracle; every listing of the set arises for some oracle (lemma
  \<open>set_items_any_order\<close>), so a statement proved for every \<open>env\<close> holds whatever the order.
\<close>

definition set_items :: "env \<Rightarrow> string list \<Rightarrow> string list" where
  "set_items ev xs = sort_key (hash_order ev) (remdups xs)"

text \<open>The position of the first occurrence of an element in a list.\<close>

fun position :: "string list \<Rightarrow> string \<Rightarrow> nat" where
  "position [] x = 0"
| "position (y # ys) x = (if x = y then 0 else Suc (position ys x))"

subsection \<open>Strings\<close>

text \<open>
  \<^verbatim>\<open>str.upper()\<close> on the ASCII letters (addresses are ASCII), and \<^verbatim>\<open>str.strip()\<close> on
  the ASCII white space.
\<close>

definition upper_char :: "char \<Rightarrow> char" where
  "upper_char c =
     (if (97::nat) \<le> of_char c \<and> of_char c \<le> (122::nat)
      then char_of (of_char c - (32::nat)) else c)"

definition upper :: "string \<Rightarrow> string" where
  "upper s = map upper_char s"

definition is_space :: "char \<Rightarrow> bool" where
  "is_space c = (of_char c \<in> {9, 10, 11, 12, 13, 28, 29, 30, 31, 32 :: nat})"

definition strip :: "string \<Rightarrow> string" where
  "strip s = rev (dropWhile is_space (rev (dropWhile is_space s)))"

text \<open>Truth value of an optional string: \<open>None\<close> and the empty string are false.\<close>

definition truthy :: "string option \<Rightarrow> bool" where
  "truthy s = (case s of None \<Rightarrow> False | Some v \<Rightarrow> v \<noteq> [])"

text \<open>\<^verbatim>\<open>a or b\<close> on optional strings.\<close>

definition or_else :: "string option \<Rightarrow> string option \<Rightarrow> string option" where
  "or_else a b = (if truthy a then a else b)"

subsection \<open>Device snapshots\<close>

text \<open>
  A snapshot is a Python dict from address to the record built in
  \<^verbatim>\<open>get_device_snapshot\<close>: an association list in insertion order, looked up with
  \<open>map_of\<close>. A key a dict literal leaves out and a key bound to \<open>None\<close> read the same
  through \<^verbatim>\<open>.get\<close>, so every field is optional or a plain boolean.
\<close>

record device_info =
  path :: "string option"
  address :: "string option"
  name :: "string option"
  "alias" :: "string option"
  connected :: bool
  paired :: bool
  trusted :: bool
  rssi :: "int option"
  tx_power :: "int option"

type_synonym snapshot = "(string \<times> device_info) list"

definition normalize_mac :: "string option \<Rightarrow> string option" where
  "normalize_mac a = (if \<not> truthy a then None else map_option upper a)"

definition dbus_bool :: "bool option \<Rightarrow> bool" where
  "dbus_bool b = (case b of None \<Rightarrow> False | Some v \<Rightarrow> v)"

definition device_info_of :: "string \<Rightarrow> string \<Rightarrow> device_props \<Rightarrow> device_info" where
  "device_info_of p a props =
     \<lparr> path = Some p, address = Some a, name = Name props, alias = Alias props,
       connected = dbus_bool (Connected props), paired = dbus_bool (Paired props),
       trusted = dbus_bool (Trusted props), rssi = RSSI props, tx_power = TxPower props \<rparr>"

text \<open>
  The loop of \<^verbatim>\<open>get_device_snapshot\<close> (lines 188-206): objects without the device
  interface or without an address are skipped; \<^verbatim>\<open>devices[address] = device_info\<close>
  overwrites an earlier record of the same address in place.
\<close>

fun snapshot_of :: "managed_object list \<Rightarrow> snapshot \<Rightarrow> snapshot" where
  "snapshot_of [] devices = devices"
| "snapshot_of (obj # objs) devices =
     (case device1 obj of
        None \<Rightarrow> snapshot_of objs devices
      | Some props \<Rightarrow>
          (case normalize_mac (Address props) of
             None \<Rightarrow> snapshot_of objs devices
           | Some a \<Rightarrow>
               snapshot_of objs
                 (AList.update a (device_info_of (object_path obj) a props) devices)))"

text \<open>
  \<^verbatim>\<open>get_device_snapshot()\<close>, lines 179-208: one \<^verbatim>\<open>GetManagedObjects\<close> call; when it
  raises, the snapshot is empty.
\<close>

definition get_device_snapshot :: "env \<Rightarrow> world \<Rightarrow> snapshot \<times> world" where
  "get_device_snapshot ev w =
     (let w1 = emit GetManagedObjects (advance w) in
      case managed_objects ev (tick w) of
        None \<Rightarrow> ([], w1)
      | Some objs \<Rightarrow> (snapshot_of objs [], w1))"

text \<open>
  \<^verbatim>\<open>snapshot = snapshot or get_device_snapshot()\<close>: an absent and an empty snapshot are
  both replaced by a fresh one.
\<close>

definition snapshot_or_fetch :: "env \<Rightarrow> snapshot option \<Rightarrow> world \<Rightarrow> snapshot \<times> world" where
  "snapshot_or_fetch ev snapshot w =
     (case snapshot of
        None \<Rightarrow> get_device_snapshot ev w
      | Some s \<Rightarrow> if s = [] then get_device_snapshot ev w else (s, w))"

text \<open>\<^verbatim>\<open>check_device_connected\<close>, lines 243-250.\<close>

definition check_device_connected ::
  "env \<Rightarrow> string \<Rightarrow> snapshot option \<Rightarrow> world \<Rightarrow> bool \<times> world" where
  "check_device_connected ev mac_address snapshot w =
     (case snapshot_or_fetch ev snapshot w of (s, w1) \<Rightarrow>
        (case map_of s (upper mac_address) of
           None \<Rightarrow> (False, w1)
         | Some device \<Rightarrow> (connected device, w1)))"

text \<open>\<^verbatim>\<open>get_all_connected_devices\<close> (lines 309-326) and \<^verbatim>\<open>get_paired_devices\<close> (756-768).\<close>

definition get_all_connected_devices ::
  "env \<Rightarrow> snapshot option \<Rightarrow> world \<Rightarrow> string list \<times> world" where
  "get_all_connected_devices ev snapshot w =
     (case snapshot_or_fetch ev snapshot w of (s, w1) \<Rightarrow>
        (map fst (filter (\<lambda>(mac_address, info). connected info) s), w1))"

definition get_paired_devices ::
  "env \<Rightarrow> snapshot option \<Rightarrow> world \<Rightarrow> string list \<times> world" where
  "get_paired_devices ev snapshot w =
     (case snapshot_or_fetch ev snapshot w of (s, w1) \<Rightarrow>
        (map fst (filter (\<lambda>(mac_address, info). paired info) s), w1))"

text \<open>\<^verbatim>\<open>_get_device_path\<close>, lines 329-334.\<close>

definition get_device_path ::
  "env \<Rightarrow> string \<Rightarrow> snapshot option \<Rightarrow> world \<Rightarrow> string option \<times> world" where
  "get_device_path ev mac_address snapshot w =
     (case snapshot_or_fetch ev snapshot w of (s, w1) \<Rightarrow>
        (case map_of s (upper mac_address) of
           None \<Rightarrow> (None, w1)
         | Some device \<Rightarrow> (path device, w1)))"

text \<open>
  \<^verbatim>\<open>trust_device\<close>, lines 337-362. Setting the property is the event \<open>SetTrusted\<close>;
  the oracle says whether the call went through (an exception gives \<open>False\<close>).
\<close>

definition trust_device ::
  "env \<Rightarrow> string \<Rightarrow> snapshot option \<Rightarrow> world \<Rightarrow> bool \<times> world" where
  "trust_device ev mac_address snapshot w =
     (case snapshot_or_fetch ev snapshot w of (s, w1) \<Rightarrow>
        (case get_device_path ev mac_address (Some s) w1 of (device_path, w2) \<Rightarrow>
           if \<not> truthy device_path then (False, w2)
           else (set_trusted_reply ev (tick w2),
                 emit (SetTrusted (the device_path)) (advance w2))))"

text \<open>\<^verbatim>\<open>is_device_trusted\<close>, lines 365-383.\<close>

definition is_device_trusted ::
  "env \<Rightarrow> string \<Rightarrow> snapshot option \<Rightarrow> world \<Rightarrow> bool \<times> world" where
  "is_device_trusted ev mac_address snapshot w =
     (case snapshot_or_fetch ev snapshot w of (s, w1) \<Rightarrow>
        (case map_of s (upper mac_address) of
           None \<Rightarrow> (False, w1)
         | Some device \<Rightarrow> (trusted device, w1)))"

subsection \<open>The connection controller\<close>

text \<open>
  \<^verbatim>\<open>_invoke_with_hard_timeout\<close> (lines 398-431) applied to \<^verbatim>\<open>_dbus_device_method\<close>
  (lines 386-395): the method call on the device object is the event \<open>DeviceMethod\<close>, and
  the oracle says what the call does within the hard timeout. An exception whose text is
  empty is not seen by \<^verbatim>\<open>if result["error"]\<close>. The timeouts handed down only decide
  which outcome a call has, so they are not parameters of the model.
\<close>

definition invoke_with_hard_timeout ::
  "env \<Rightarrow> string \<Rightarrow> string \<Rightarrow> world \<Rightarrow> (bool \<times> string option) \<times> world" where
  "invoke_with_hard_timeout ev device_path method_name w =
     (let w1 = emit (DeviceMethod device_path method_name) (advance w) in
      case method_reply ev (tick w) of
        Hung \<Rightarrow> ((False, Some ''hard timeout''), w1)
      | Failed err \<Rightarrow> (if err \<noteq> [] then ((False, Some err), w1) else ((True, None), w1))
      | Done \<Rightarrow> ((True, None), w1))"

text \<open>\<^verbatim>\<open>_run_bluetoothctl_operation\<close>, lines 434-476.\<close>

definition run_bluetoothctl_operation ::
  "env \<Rightarrow> string \<Rightarrow> string \<Rightarrow> world \<Rightarrow> (bool \<times> string option) \<times> world" where
  "run_bluetoothctl_operation ev command mac_address w =
     (let w1 = emit (Bluetoothctl command mac_address) (advance w) in
      case bluetoothctl_reply ev (tick w) of
        Exited returncode out err \<Rightarrow>
          (let detail = or_else (or_else (Some (strip err)) (Some (strip out))) None in
           ((returncode = 0, detail), w1))
      | CtlTimeout \<Rightarrow> ((False, Some ''bluetoothctl timeout''), w1)
      | CtlMissing \<Rightarrow> ((False, Some ''bluetoothctl missing''), w1))"

text \<open>\<^verbatim>\<open>_read_connected_property\<close>, lines 479-494: \<open>None\<close> when the read raises.\<close>

definition read_connected_property :: "env \<Rightarrow> string \<Rightarrow> world \<Rightarrow> bool option \<times> world" where
  "read_connected_property ev device_path w =
     (connected_property ev (tick w), emit (ReadConnected device_path) (advance w))"

text \<open>
  \<^verbatim>\<open>_verify_connected_state\<close>, lines 497-547. \<open>verify_attempts\<close> is the \<^verbatim>\<open>for\<close> loop
  over the attempt numbers still to run; it yields \<open>True\<close> when the loop returned from the
  function and \<open>False\<close> when it ran to its end. \<^verbatim>\<open>time.sleep(d)\<close> is the event
  \<open>Sleep d\<close>.
\<close>

definition max_attempts :: nat where
  "max_attempts = 3"

definition base_delay :: real where
  "base_delay = 0.2"

definition sleep_before_retry :: "nat \<Rightarrow> world \<Rightarrow> world" where
  "sleep_before_retry attempt w =
     (if attempt < max_attempts - 1 then emit (Sleep (base_delay * 2 ^ attempt)) w else w)"

fun verify_attempts ::
  "env \<Rightarrow> string \<Rightarrow> bool \<Rightarrow> nat list \<Rightarrow> world \<Rightarrow> bool \<times> world" where
  "verify_attempts ev device_path expect_connected [] w = (False, w)"
| "verify_attempts ev device_path expect_connected (attempt # rest) w =
     (case read_connected_property ev device_path w of (c, w1) \<Rightarrow>
        (case c of
           None \<Rightarrow>
             verify_attempts ev device_path expect_connected rest
               (sleep_before_retry attempt w1)
         | Some is_connected \<Rightarrow>
             if (if expect_connected then is_connected else \<not> is_connected)
             then (True, w1)
             else verify_attempts ev device_path expect_connected rest
                    (sleep_before_retry attempt w1)))"

definition verify_connected_state ::
  "env \<Rightarrow> string \<Rightarrow> string \<Rightarrow> bool \<Rightarrow> world \<Rightarrow> bool \<times> world" where
  "verify_connected_state ev mac_address device_path expect_connected w =
     (case verify_attempts ev device_path expect_connected [0..<max_attempts] w of
        (True, w1) \<Rightarrow> (True, w1)
      | (False, w1) \<Rightarrow>
          (case check_device_connected ev mac_address None w1 of (is_connected, w2) \<Rightarrow>
             (if expect_connected then is_connected else \<not> is_connected, w2)))"

text \<open>
  Python converts the integer \<^verbatim>\<open>2 ** (failures - 1)\<close> to a float before multiplying
  it with the float \<^verbatim>\<open>PROBE_BACKOFF_BASE_SECONDS\<close>; the conversion raises
  \<^verbatim>\<open>OverflowError\<close> for an integer that rounds to more than the largest double.
\<close>

datatype error = OverflowError | DBusException

definition float_of_int :: "int \<Rightarrow> error + real" where
  "float_of_int i =
     (if \<bar>i\<bar> < 2 ^ 1024 - 2 ^ 970 then Inr (real_of_int i) else Inl OverflowError)"

text \<open>
  \<^verbatim>\<open>_record_probe_failure\<close>, lines 550-565. The count is stored before the backoff is
  computed, so it stays stored when the computation raises.
\<close>

definition record_probe_failure ::
  "config \<Rightarrow> env \<Rightarrow> string \<Rightarrow> world \<Rightarrow> (error + unit) \<times> world" where
  "record_probe_failure cfg ev mac_address w =
     (let failures = (case failed_connection_attempts w mac_address of
                        None \<Rightarrow> 0 | Some n \<Rightarrow> n) + 1;
          w1 = w\<lparr>failed_connection_attempts :=
                   (failed_connection_attempts w)(mac_address \<mapsto> failures)\<rparr>
      in if failures \<le> 0 then (Inr (), w1)
         else
           (case float_of_int (2 ^ nat (failures - 1)) of
              Inl e \<Rightarrow> (Inl e, w1)
            | Inr factor \<Rightarrow>
                (let backoff = min (PROBE_BACKOFF_BASE_SECONDS cfg * factor)
                                   (PROBE_BACKOFF_MAX_SECONDS cfg)
                 in (Inr (), (advance w1)\<lparr>next_probe_allowed_at :=
                       (next_probe_allowed_at w1)
                         (mac_address \<mapsto> monotonic ev (tick w1) + backoff)\<rparr>))))"

text \<open>\<^verbatim>\<open>_reset_probe_failure\<close>, lines 568-572.\<close>

definition reset_probe_failure :: "string \<Rightarrow> world \<Rightarrow> world" where
  "reset_probe_failure mac_address w =
     w\<lparr>failed_connection_attempts := (failed_connection_attempts w)(mac_address := None),
       next_probe_allowed_at := (next_probe_allowed_at w)(mac_address := None)\<rparr>"

text \<open>
  \<^verbatim>\<open>connect_device\<close>, lines 575-655. The result is \<open>Inr\<close> of the boolean the function
  returns, or \<open>Inl\<close> of the exception that leaves it.
\<close>

definition connect_device ::
  "config \<Rightarrow> env \<Rightarrow> string \<Rightarrow> snapshot option \<Rightarrow> world \<Rightarrow> (error + bool) \<times> world" where
  "connect_device cfg ev mac_address snapshot w =
     (case snapshot_or_fetch ev snapshot w of (s, w1) \<Rightarrow>
      case is_device_trusted ev mac_address (Some s) w1 of (is_trusted, w2) \<Rightarrow>
      let w3 = (if \<not> is_trusted then snd (trust_device ev mac_address (Some s) w2) else w2) in
      case get_device_path ev mac_address (Some s) w3 of (device_path, w4) \<Rightarrow>
      if \<not> truthy device_path then (Inr False, w4)
      else
        case invoke_with_hard_timeout ev (the device_path) ''Connect'' w4 of
          ((dbus_success, dbus_error), w5) \<Rightarrow>
        let w6 = (if \<not> dbus_success
                  then snd (run_bluetoothctl_operation ev ''connect'' mac_address w5)
                  else w5) in
        case verify_connected_state ev mac_address (the device_path) True w6 of
          (verified, w7) \<Rightarrow>
        if verified then (Inr True, reset_probe_failure mac_address w7)
        else
          (case record_probe_failure cfg ev mac_address w7 of
             (Inl e, w8) \<Rightarrow> (Inl e, w8)
           | (Inr u, w8) \<Rightarrow> (Inr False, w8)))"

text \<open>\<^verbatim>\<open>disconnect_device\<close>, lines 658-723.\<close>

definition disconnect_device ::
  "env \<Rightarrow> string \<Rightarrow> snapshot option \<Rightarrow> world \<Rightarrow> bool \<times> world" where
  "disconnect_device ev mac_address snapshot w =
     (case get_device_path ev mac_address snapshot w of (device_path, w1) \<Rightarrow>
      if \<not> truthy device_path then (False, w1)
      else
        case invoke_with_hard_timeout ev (the device_path) ''Disconnect'' w1 of
          ((dbus_success, dbus_error), w2) \<Rightarrow>
        let w3 = (if \<not> dbus_success
                  then snd (run_bluetoothctl_operation ev ''disconnect'' mac_address w2)
                  else w2) in
        verify_connected_state ev mac_address (the device_path) False w3)"

subsection \<open>The upstream sync client and its circuit breaker\<close>

text \<open>
  \<^verbatim>\<open>_submit_convex_call(fn, description)\<close>, presence_tracker.py lines 134-183. The
  closure \<open>fn\<close> is represented by the store call it performs and by what that call does
  once it runs (\<open>reply\<close>); handing it to the worker pool is the event \<open>Submit\<close>. The first
  clock reading is \<open>now\<close>; a second one is taken when a timeout opens the circuit.
\<close>

definition submit_convex_call ::
  "config \<Rightarrow> env \<Rightarrow> store_call \<Rightarrow> 'a outcome \<Rightarrow> world \<Rightarrow> 'a option \<times> world" where
  "submit_convex_call cfg ev call reply w =
     (let now = monotonic ev (tick w); w0 = advance w in
      if now < convex_circuit_open_until w0 then (None, w0)
      else
        let w1 = emit (Submit call) w0 in
        (case reply of
           Returned result \<Rightarrow> (result, w1\<lparr>convex_consecutive_timeouts := 0\<rparr>)
         | TimedOut \<Rightarrow>
             let w2 = w1\<lparr>convex_consecutive_timeouts := convex_consecutive_timeouts w1 + 1\<rparr> in
             if convex_consecutive_timeouts w2 \<ge> MAX_CONVEX_CONSECUTIVE_TIMEOUTS cfg
             then (None, (advance w2)\<lparr>convex_circuit_open_until :=
                            monotonic ev (tick w2) + CONVEX_CIRCUIT_OPEN_SECONDS cfg\<rparr>)
             else (None, w2)
         | Raised \<Rightarrow> (None, w1\<lparr>convex_consecutive_timeouts := 0\<rparr>)))"

text \<open>\<^verbatim>\<open>get_known_devices()\<close>, lines 192-207: \<open>None\<close> becomes the empty list.\<close>

definition get_known_devices :: "config \<Rightarrow> env \<Rightarrow> world \<Rightarrow> known_device list \<times> world" where
  "get_known_devices cfg ev w =
     (case submit_convex_call cfg ev GetDevices (devices_reply ev (tick w)) w of
        (None, w') \<Rightarrow> ([], w')
      | (Some result, w') \<Rightarrow> (result, w'))"

subsection \<open>Observing a run\<close>

text \<open>The outside actions a step has added to the trace.\<close>

definition new_events :: "world \<Rightarrow> world \<Rightarrow> event list" where
  "new_events w w' = drop (length (trace w)) (trace w')"

text \<open>The two ways of asking the link layer to connect or disconnect.\<close>

fun is_link_command :: "event \<Rightarrow> bool" where
  "is_link_command (DeviceMethod device_path method_name) = True"
| "is_link_command (Bluetoothctl command mac_address) = True"
| "is_link_command e = False"

text \<open>The snapshot that \<^verbatim>\<open>get_device_snapshot\<close> builds at position \<open>n\<close> of the oracle.\<close>

definition fresh_snapshot :: "env \<Rightarrow> nat \<Rightarrow> snapshot" where
  "fresh_snapshot ev n =
     (case managed_objects ev n of None \<Rightarrow> [] | Some objs \<Rightarrow> snapshot_of objs [])"

text \<open>
  The address has no usable link handle in a snapshot: no record under the upper-cased
  address, or a record whose \<^verbatim>\<open>path\<close> is \<open>None\<close> or empty.
\<close>

definition no_handle :: "snapshot \<Rightarrow> string \<Rightarrow> bool" where
  "no_handle s mac_address =
     (case map_of s (upper mac_address) of
        None \<Rightarrow> True
      | Some device \<Rightarrow> \<not> truthy (path device))"

text \<open>
  The snapshots a helper may read when it is handed the snapshot \<open>s\<close>: \<open>s\<close> itself, or,
  when \<open>s\<close> is empty, whatever fresh snapshot the helper then fetches.
\<close>

definition consulted :: "env \<Rightarrow> snapshot \<Rightarrow> snapshot set" where
  "consulted ev s = (if s = [] then range (fresh_snapshot ev) else {s})"

text \<open>A step that only fetched snapshots: nothing else of the world has changed.\<close>

definition fetch_step :: "world \<Rightarrow> world \<Rightarrow> bool" where
  "fetch_step w w' =
     (\<exists>n. w' = w\<lparr>tick := tick w + n, trace := trace w @ replicate n GetManagedObjects\<rparr>)"

text \<open>A property read shows the expected state.\<close>

definition matches :: "bool \<Rightarrow> bool option \<Rightarrow> bool" where
  "matches expect_connected r = (r = Some expect_connected)"

text \<open>
  The verification as the specification words it (section 4.1, step 5): the same three
  reads, then a final check against the last snapshot, the one the attempt worked from.
\<close>

definition verify_connected_state_spec ::
  "env \<Rightarrow> snapshot \<Rightarrow> string \<Rightarrow> string \<Rightarrow> bool \<Rightarrow> world \<Rightarrow> bool \<times> world" where
  "verify_connected_state_spec ev last_snapshot mac_address device_path expect_connected w =
     (case verify_attempts ev device_path expect_connected [0..<max_attempts] w of
        (True, w1) \<Rightarrow> (True, w1)
      | (False, w1) \<Rightarrow>
          (case check_device_connected ev mac_address (Some last_snapshot) w1 of
             (is_connected, w2) \<Rightarrow>
               (if expect_connected then is_connected else \<not> is_connected, w2)))"

text \<open>\<^verbatim>\<open>_failed_connection_attempts.get(mac_address, 0)\<close>.\<close>

definition failure_count :: "world \<Rightarrow> string \<Rightarrow> int" where
  "failure_count w mac_address =
     (case failed_connection_attempts w mac_address of None \<Rightarrow> 0 | Some n \<Rightarrow> n)"

text \<open>
  The delay the specification gives for a number of consecutive failures (section 4.1,
  step 6): \<open>min(base * 2^(failures-1), cap)\<close>.
\<close>

definition backoff_delay :: "config \<Rightarrow> int \<Rightarrow> real" where
  "backoff_delay cfg failures =
     min (PROBE_BACKOFF_BASE_SECONDS cfg * 2 ^ nat (failures - 1))
         (PROBE_BACKOFF_MAX_SECONDS cfg)"

subsection \<open>Removing pairings\<close>

text \<open>\<^verbatim>\<open>_get_managed_objects()\<close>, lines 143-146: the call may raise.\<close>

definition get_managed_objects :: "env \<Rightarrow> world \<Rightarrow> (error + managed_object list) \<times> world" where
  "get_managed_objects ev w =
     (case managed_objects ev (tick w) of
        None \<Rightarrow> (Inl DBusException, emit GetManagedObjects (advance w))
      | Some objs \<Rightarrow> (Inr objs, emit GetManagedObjects (advance w)))"

text \<open>
  \<^verbatim>\<open>_get_adapter_path(managed_objects)\<close>, lines 149-158: the cached path if there is one;
  otherwise the first object with the adapter interface, which is then cached. An empty
  dict of objects is replaced by a fresh one (\<^verbatim>\<open>managed_objects or ...\<close>).
\<close>

definition get_adapter_path ::
  "env \<Rightarrow> managed_object list \<Rightarrow> world \<Rightarrow> (error + string option) \<times> world" where
  "get_adapter_path ev objs w =
     (case adapter_path_cache w of
        Some cached \<Rightarrow> (Inr (Some cached), w)
      | None \<Rightarrow>
          (case (if objs \<noteq> [] then (Inr objs, w) else get_managed_objects ev w) of
             (Inl e, w1) \<Rightarrow> (Inl e, w1)
           | (Inr objects, w1) \<Rightarrow>
               (case List.find adapter1 objects of
                  None \<Rightarrow> (Inr None, w1)
                | Some obj \<Rightarrow>
                    (Inr (Some (object_path obj)),
                     w1\<lparr>adapter_path_cache := Some (object_path obj)\<rparr>))))"

text \<open>
  \<^verbatim>\<open>remove_device\<close>, lines 726-753. The adapter's \<^verbatim>\<open>RemoveDevice(device_path)\<close> is the
  event \<open>RemoveDevice adapter_path device_path\<close>; every exception gives \<open>False\<close>.
\<close>

definition remove_device ::
  "env \<Rightarrow> string \<Rightarrow> snapshot option \<Rightarrow> world \<Rightarrow> bool \<times> world" where
  "remove_device ev mac_address snapshot w =
     (case snapshot_or_fetch ev snapshot w of (s, w1) \<Rightarrow>
      case get_device_path ev mac_address (Some s) w1 of (device_path, w2) \<Rightarrow>
      if \<not> truthy device_path then (False, w2)
      else
        (case get_managed_objects ev w2 of
           (Inl e, w3) \<Rightarrow> (False, w3)
         | (Inr objs, w3) \<Rightarrow>
             (case get_adapter_path ev objs w3 of
                (Inl e, w4) \<Rightarrow> (False, w4)
              | (Inr adapter_path, w4) \<Rightarrow>
                  if \<not> truthy adapter_path then (False, w4)
                  else (remove_reply ev (tick w4),
                        emit (RemoveDevice (the adapter_path) (the device_path))
                          (advance w4)))))"

subsection \<open>Stale-pairing cleanup\<close>

text \<open>
  \<^verbatim>\<open>cleanup_stale_bluetooth_pairings\<close>, lines 316-360, in three parts. Lines 326-335 read
  the snapshot, the paired and the connected addresses.
\<close>

definition cleanup_inputs ::
  "env \<Rightarrow> snapshot option \<Rightarrow> world \<Rightarrow> (snapshot \<times> string list \<times> string list) \<times> world" where
  "cleanup_inputs ev snapshot w =
     (case snapshot_or_fetch ev snapshot w of (s, w1) \<Rightarrow>
      case get_paired_devices ev (Some s) w1 of (paired_devices, w2) \<Rightarrow>
      case get_all_connected_devices ev (Some s) w2 of (connected_devices, w3) \<Rightarrow>
      ((s, paired_devices, connected_devices), w3))"

text \<open>Line 338: \<^verbatim>\<open>convex_devices = convex_devices or get_known_devices()\<close>.\<close>

definition devices_or_fetch ::
  "config \<Rightarrow> env \<Rightarrow> known_device list option \<Rightarrow> world \<Rightarrow> known_device list \<times> world" where
  "devices_or_fetch cfg ev convex_devices w =
     (case convex_devices of
        None \<Rightarrow> get_known_devices cfg ev w
      | Some ds \<Rightarrow> if ds = [] then get_known_devices cfg ev w else (ds, w))"

text \<open>Line 343: the addresses of the store records, those that are not empty.\<close>

definition convex_macs :: "known_device list \<Rightarrow> string list" where
  "convex_macs ds = map the (filter truthy (map macAddress ds))"

text \<open>
  Line 347: \<^verbatim>\<open>paired_set - convex_macs - connected_set\<close>, listed in the order in which
  the loop of line 351 iterates the set.
\<close>

definition stale_devices ::
  "env \<Rightarrow> string list \<Rightarrow> string list \<Rightarrow> string list \<Rightarrow> string list" where
  "stale_devices ev paired_devices known connected_devices =
     set_items ev
       (filter (\<lambda>mac_address. mac_address \<notin> set known \<and> mac_address \<notin> set connected_devices)
          (remdups paired_devices))"

text \<open>Lines 351-356: the loop over the stale addresses.\<close>

fun remove_stale :: "env \<Rightarrow> snapshot \<Rightarrow> string list \<Rightarrow> world \<Rightarrow> world" where
  "remove_stale ev s [] w = w"
| "remove_stale ev s (mac_address # rest) w =
     remove_stale ev s rest (snd (remove_device ev mac_address (Some s) w))"

definition cleanup_stale_bluetooth_pairings ::
  "config \<Rightarrow> env \<Rightarrow> known_device list option \<Rightarrow> snapshot option \<Rightarrow> world \<Rightarrow> world" where
  "cleanup_stale_bluetooth_pairings cfg ev convex_devices snapshot w =
     (case cleanup_inputs ev snapshot w of ((s, paired_devices, connected_devices), w3) \<Rightarrow>
      case devices_or_fetch cfg ev convex_devices w3 of (ds, w4) \<Rightarrow>
      if ds = [] then w4
      else remove_stale ev s
             (stale_devices ev paired_devices (convex_macs ds) connected_devices) w4)"

text \<open>
  A snapshot as \<^verbatim>\<open>get_device_snapshot\<close> builds it: a dict (no address twice) whose keys
  are upper-cased addresses.
\<close>

definition wf_snapshot :: "snapshot \<Rightarrow> bool" where
  "wf_snapshot s = (distinct (map fst s) \<and> list_all (\<lambda>(k, info). upper k = k) s)"

text \<open>The events that remove a pairing.\<close>

fun is_removal :: "event \<Rightarrow> bool" where
  "is_removal (RemoveDevice adapter_path device_path) = True"
| "is_removal e = False"

text \<open>
  A link handle that belongs to a stale record of the snapshot: paired, not connected, and
  with an address outside the known set.
\<close>

definition stale_record :: "snapshot \<Rightarrow> string list \<Rightarrow> string \<Rightarrow> bool" where
  "stale_record s known device_path =
     list_ex (\<lambda>(mac_address, info).
        path info = Some device_path \<and> paired info \<and> \<not> connected info
        \<and> mac_address \<notin> set known) s"

text \<open>A step whose outside actions all satisfy a predicate.\<close>

definition emits :: "(event \<Rightarrow> bool) \<Rightarrow> world \<Rightarrow> world \<Rightarrow> bool" where
  "emits P w w' = (\<exists>es. trace w' = trace w @ es \<and> list_all P es)"

text \<open>What the claim about stale-pairing cleanup asks of every outside action.\<close>

fun removes_only_stale :: "snapshot \<Rightarrow> string list \<Rightarrow> event \<Rightarrow> bool" where
  "removes_only_stale s known (RemoveDevice adapter_path device_path) =
     stale_record s known device_path"
| "removes_only_stale s known e = True"

subsection \<open>The probe scheduler\<close>

text \<open>\<^verbatim>\<open>_last_connection_attempts.get(mac, 0)\<close>: the sort key of the fairness order.\<close>

definition last_attempt :: "world \<Rightarrow> string \<Rightarrow> real" where
  "last_attempt w mac_address =
     (case last_connection_attempts w mac_address of None \<Rightarrow> 0 | Some t \<Rightarrow> t)"

text \<open>
  \<^verbatim>\<open>_can_attempt_reconnection\<close>, lines 771-806: the monotonic clock is read first, the
  wall clock second; a next-allowed time of zero counts as none (\<^verbatim>\<open>if next_allowed and\<close>).
\<close>

definition can_attempt_reconnection :: "env \<Rightarrow> string \<Rightarrow> world \<Rightarrow> bool \<times> world" where
  "can_attempt_reconnection ev mac_address w =
     (let now = monotonic ev (tick w);
          w1 = advance w;
          time_since_attempt = wall_time ev (tick w1) - last_attempt w mac_address;
          w2 = advance w1
      in if time_since_attempt < RECONNECT_COOLDOWN then (False, w2)
         else
           (case next_probe_allowed_at w mac_address of
              None \<Rightarrow> (True, w2)
            | Some next_allowed \<Rightarrow>
                if next_allowed \<noteq> 0 \<and> now < next_allowed then (False, w2) else (True, w2)))"

text \<open>\<^verbatim>\<open>_record_connection_attempt\<close>, lines 809-817.\<close>

definition record_connection_attempt :: "env \<Rightarrow> string \<Rightarrow> world \<Rightarrow> world" where
  "record_connection_attempt ev mac_address w =
     (advance w)\<lparr>last_connection_attempts :=
                   (last_connection_attempts w)(mac_address \<mapsto> wall_time ev (tick w))\<rparr>"

text \<open>
  \<^verbatim>\<open>_pick_reconnect_candidates\<close>, lines 839-851. The candidates are a Python set:
  \<^verbatim>\<open>list(candidates)\<close> lists it in its iteration order, and \<^verbatim>\<open>sorted\<close> sorts that listing
  by the key; \<^verbatim>\<open>sorted\<close> is stable, as \<open>sort_key\<close> is.
\<close>

definition pick_reconnect_candidates ::
  "env \<Rightarrow> world \<Rightarrow> string list \<Rightarrow> int \<Rightarrow> string list" where
  "pick_reconnect_candidates ev w candidates max_count =
     (if max_count \<le> 0 then set_items ev candidates
      else take (nat max_count) (sort_key (last_attempt w) (set_items ev candidates)))"

text \<open>
  \<^verbatim>\<open>_probe_single_device\<close>, lines 854-887: the attempt is recorded before it starts; an
  exception that leaves \<^verbatim>\<open>connect_device\<close> is caught and counts as a failure.
\<close>

definition probe_single_device ::
  "config \<Rightarrow> env \<Rightarrow> string \<Rightarrow> bool \<Rightarrow> snapshot option \<Rightarrow> world \<Rightarrow> (string \<times> bool) \<times> world" where
  "probe_single_device cfg ev mac_address disconnect_after snapshot w =
     (let w1 = record_connection_attempt ev mac_address w in
      case connect_device cfg ev mac_address snapshot w1 of
        (Inl e, w2) \<Rightarrow> ((mac_address, False), w2)
      | (Inr success, w2) \<Rightarrow>
          ((mac_address, success),
           if success \<and> disconnect_after
           then snd (disconnect_device ev mac_address snapshot w2) else w2))"

text \<open>
  The loop of \<^verbatim>\<open>probe_devices\<close>, lines 939-947: the time budget is checked first and ends
  the loop; a device in cooldown or backoff is skipped; otherwise the device is probed and
  the result stored under its address.
\<close>

fun probe_loop ::
  "config \<Rightarrow> env \<Rightarrow> bool \<Rightarrow> snapshot option \<Rightarrow> real option \<Rightarrow> real \<Rightarrow> string list \<Rightarrow>
     (string \<times> bool) list \<Rightarrow> world \<Rightarrow> (string \<times> bool) list \<times> world" where
  "probe_loop cfg ev disconnect_after snapshot time_budget_seconds start_time [] results w =
     (results, w)"
| "probe_loop cfg ev disconnect_after snapshot time_budget_seconds start_time
     (mac_address # rest) results w =
     (let over = (case time_budget_seconds of
                    None \<Rightarrow> False
                  | Some budget \<Rightarrow> monotonic ev (tick w) - start_time \<ge> budget);
          w1 = (case time_budget_seconds of None \<Rightarrow> w | Some budget \<Rightarrow> advance w)
      in if over then (results, w1)
         else
           (case can_attempt_reconnection ev mac_address w1 of
              (False, w2) \<Rightarrow>
                probe_loop cfg ev disconnect_after snapshot time_budget_seconds start_time
                  rest results w2
            | (True, w2) \<Rightarrow>
                (case probe_single_device cfg ev mac_address disconnect_after snapshot w2 of
                   ((mac, success), w3) \<Rightarrow>
                     probe_loop cfg ev disconnect_after snapshot time_budget_seconds start_time
                       rest (AList.update mac success results) w3)))"

text \<open>
  Lines 917-919: the set of the upper-cased candidates without the upper-cased connected
  addresses. The set of connected addresses is given as a list.
\<close>

definition candidate_set :: "string list \<Rightarrow> string list option \<Rightarrow> string list" where
  "candidate_set mac_addresses connected_macs =
     (let candidates = remdups (map upper mac_addresses) in
      case connected_macs of
        None \<Rightarrow> candidates
      | Some cs \<Rightarrow>
          if cs = [] then candidates
          else filter (\<lambda>mac. mac \<notin> set (map upper cs)) candidates)"

text \<open>
  \<^verbatim>\<open>probe_devices\<close>, lines 890-956. The result dict is an association list in insertion
  order: its keys are the addresses that were attempted, in the order of the attempts.
\<close>

definition probe_devices ::
  "config \<Rightarrow> env \<Rightarrow> string list \<Rightarrow> bool \<Rightarrow> string list option \<Rightarrow> snapshot option \<Rightarrow>
     real option \<Rightarrow> world \<Rightarrow> (string \<times> bool) list \<times> world" where
  "probe_devices cfg ev mac_addresses disconnect_after connected_macs snapshot
     time_budget_seconds w =
     (if mac_addresses = [] then ([], w)
      else if candidate_set mac_addresses connected_macs = [] then ([], w)
      else
        let max_candidates = (if MAX_RECONNECT_PER_CYCLE cfg > 0
                              then MAX_RECONNECT_PER_CYCLE cfg else 0);
            ordered_candidates =
              pick_reconnect_candidates ev w (candidate_set mac_addresses connected_macs)
                max_candidates
        in if ordered_candidates = [] then ([], w)
           else probe_loop cfg ev disconnect_after snapshot time_budget_seconds
                  (monotonic ev (tick w)) ordered_candidates [] (advance w))"

text \<open>
  The addresses a call of \<^verbatim>\<open>probe_devices\<close> attempts, in the order of the attempts: the
  keys of the dict it returns (\<^verbatim>\<open>results[mac] = success\<close> follows every attempt).
\<close>

definition attempted ::
  "config \<Rightarrow> env \<Rightarrow> string list \<Rightarrow> bool \<Rightarrow> string list option \<Rightarrow> snapshot option \<Rightarrow>
     real option \<Rightarrow> world \<Rightarrow> string list" where
  "attempted cfg ev mac_addresses disconnect_after connected_macs snapshot
     time_budget_seconds w =
     map fst (fst (probe_devices cfg ev mac_addresses disconnect_after connected_macs snapshot
                     time_budget_seconds w))"

text \<open>
  The candidates of a probe cycle as the specification describes them: the upper-cased
  addresses of the list, less the upper-cased addresses that are already connected.
\<close>

definition probe_candidates :: "string list \<Rightarrow> string list option \<Rightarrow> string set" where
  "probe_candidates mac_addresses connected_macs =
     upper ` set mac_addresses
       - upper ` (case connected_macs of None \<Rightarrow> {} | Some conn \<Rightarrow> set conn)"

subsection \<open>Devices in range\<close>

text \<open>\<^verbatim>\<open>_device_has_presence_signal\<close> (lines 167-172) and \<^verbatim>\<open>_is_rssi_fresh\<close> (175-176).\<close>

definition device_has_presence_signal :: "device_info \<Rightarrow> bool \<Rightarrow> bool" where
  "device_has_presence_signal info rssi_fresh =
     (if connected info then True
      else if \<not> rssi_fresh then False
      else rssi info \<noteq> None \<or> tx_power info \<noteq> None)"

definition is_rssi_fresh :: "config \<Rightarrow> world \<Rightarrow> real \<Rightarrow> bool" where
  "is_rssi_fresh cfg w now =
     (now - last_rssi_refresh_time w \<le> real_of_int (RSSI_FRESHNESS_SECONDS cfg))"

text \<open>
  \<^verbatim>\<open>get_devices_in_range(snapshot, now)\<close>, lines 972-976: \<^verbatim>\<open>now or time.time()\<close> reads the
  wall clock when \<open>now\<close> is zero. The resulting set is listed in snapshot order.
\<close>

definition get_devices_in_range ::
  "config \<Rightarrow> env \<Rightarrow> snapshot \<Rightarrow> real \<Rightarrow> world \<Rightarrow> string list \<times> world" where
  "get_devices_in_range cfg ev snapshot now w =
     (let now' = (if now \<noteq> 0 then now else wall_time ev (tick w));
          w1 = (if now \<noteq> 0 then w else advance w);
          rssi_fresh = is_rssi_fresh cfg w now'
      in (remdups (map fst (filter (\<lambda>(mac, info). device_has_presence_signal info rssi_fresh)
                              snapshot)),
          w1))"

subsection \<open>Registration of new devices\<close>

text \<open>\<^verbatim>\<open>_should_register_device\<close>, lines 461-509.\<close>

definition should_register_device ::
  "config \<Rightarrow> string \<Rightarrow> device_info \<Rightarrow> real \<Rightarrow> world \<Rightarrow> bool \<times> world" where
  "should_register_device cfg mac_address info now w =
     (if \<not> (paired info \<or> connected info \<or> trusted info) then (False, w)
      else if \<not> (connected info \<or> rssi info \<noteq> None \<or> tx_power info \<noteq> None)
        then (False, w)
      else
        (case device_first_seen w mac_address of
           None \<Rightarrow> (False, w\<lparr>device_first_seen := (device_first_seen w)(mac_address \<mapsto> now)\<rparr>)
         | Some first_seen \<Rightarrow>
             if now - first_seen < real_of_int (FIRST_SEEN_DEBOUNCE_SECONDS cfg)
             then (False, w) else (True, w)))"

text \<open>The loop of \<^verbatim>\<open>_find_registration_candidates\<close>, lines 529-542.\<close>

fun find_candidates_loop ::
  "config \<Rightarrow> snapshot \<Rightarrow> string set \<Rightarrow> real \<Rightarrow> string list \<Rightarrow>
     (string \<times> device_info) list \<Rightarrow> world \<Rightarrow> (string \<times> device_info) list \<times> world" where
  "find_candidates_loop cfg snapshot connected_set now [] candidates w = (candidates, w)"
| "find_candidates_loop cfg snapshot connected_set now (mac_address # rest) candidates w =
     (if mac_address \<in> connected_set
      then find_candidates_loop cfg snapshot connected_set now rest candidates w
      else
        (case map_of snapshot mac_address of
           None \<Rightarrow> find_candidates_loop cfg snapshot connected_set now rest candidates w
         | Some info \<Rightarrow>
             (case should_register_device cfg mac_address info now w of
                (True, w1) \<Rightarrow>
                  find_candidates_loop cfg snapshot connected_set now rest
                    (candidates @ [(mac_address, info)]) w1
              | (False, w1) \<Rightarrow>
                  find_candidates_loop cfg snapshot connected_set now rest candidates w1)))"

text \<open>\<^verbatim>\<open>_find_registration_candidates\<close>, lines 512-544.\<close>

definition find_registration_candidates ::
  "config \<Rightarrow> env \<Rightarrow> snapshot \<Rightarrow> string set \<Rightarrow> real \<Rightarrow> world \<Rightarrow>
     (string \<times> device_info) list \<times> world" where
  "find_registration_candidates cfg ev snapshot connected_set now w =
     (case get_devices_in_range cfg ev snapshot now w of (devices_in_range, w1) \<Rightarrow>
        find_candidates_loop cfg snapshot connected_set now devices_in_range [] w1)"

text \<open>
  \<^verbatim>\<open>register_new_device\<close>, lines 231-273: the mutation carries \<^verbatim>\<open>name or ""\<close>; a result
  of \<open>None\<close> is a failure.
\<close>

definition register_new_device ::
  "config \<Rightarrow> env \<Rightarrow> string \<Rightarrow> string option \<Rightarrow> world \<Rightarrow> bool \<times> world" where
  "register_new_device cfg ev mac_address device_name w =
     (case submit_convex_call cfg ev
             (RegisterPendingDevice mac_address
                (case or_else device_name (Some []) of None \<Rightarrow> [] | Some n \<Rightarrow> n))
             (mutation_reply ev (tick w)) w of
        (None, w1) \<Rightarrow> (False, w1)
      | (Some result, w1) \<Rightarrow> (True, w1))"

text \<open>
  The second registration loop of \<^verbatim>\<open>check_and_update_devices\<close>, lines 726-748, over the
  candidates. \<^verbatim>\<open>devices_by_mac\<close> (lines 587-591) has a record exactly for the non-empty
  addresses of the store's list.
\<close>

fun register_candidates ::
  "config \<Rightarrow> env \<Rightarrow> known_device list \<Rightarrow> (string \<times> device_info) list \<Rightarrow> world \<Rightarrow> world" where
  "register_candidates cfg ev devices [] w = w"
| "register_candidates cfg ev devices ((mac_address, info) # rest) w =
     (if mac_address \<in> set (convex_macs devices)
      then register_candidates cfg ev devices rest
             (w\<lparr>device_first_seen := (device_first_seen w)(mac_address := None)\<rparr>)
      else
        (case register_new_device cfg ev mac_address (or_else (alias info) (name info)) w of
           (True, w1) \<Rightarrow>
             register_candidates cfg ev devices rest
               (w1\<lparr>failed_registrations := failed_registrations w1 - {mac_address},
                   device_first_seen := (device_first_seen w1)(mac_address := None)\<rparr>)
         | (False, w1) \<Rightarrow>
             register_candidates cfg ev devices rest
               (w1\<lparr>failed_registrations := insert mac_address (failed_registrations w1)\<rparr>)))"

text \<open>
  Lines 724-748 of \<^verbatim>\<open>check_and_update_devices\<close>: registration of the devices that are in
  range but not connected.
\<close>

definition register_in_range_devices ::
  "config \<Rightarrow> env \<Rightarrow> snapshot \<Rightarrow> string set \<Rightarrow> known_device list \<Rightarrow> real \<Rightarrow> world \<Rightarrow> world" where
  "register_in_range_devices cfg ev snapshot connected_set devices now w =
     (case find_registration_candidates cfg ev snapshot connected_set now w of
        (registration_candidates, w1) \<Rightarrow>
          register_candidates cfg ev devices registration_candidates w1)"

subsection \<open>A sequence of cycles\<close>

text \<open>
  What one cycle brings to the in-range registration: its environment, snapshot,
  connected set, store list and time, and the state of the other globals at that point.
  Only \<^verbatim>\<open>device_first_seen\<close> is carried from cycle to cycle here (nothing outside lines
  461-509 and 726-748 writes it); everything else may have changed in any way in between.
\<close>

record cycle =
  c_env :: env
  c_snapshot :: snapshot
  c_connected :: "string set"
  c_devices :: "known_device list"
  c_now :: real
  c_world :: world

definition cycle_start :: "cycle \<Rightarrow> (string \<rightharpoonup> real) \<Rightarrow> world" where
  "cycle_start c first_seen = (c_world c)\<lparr>device_first_seen := first_seen\<rparr>"

definition cycle_end :: "config \<Rightarrow> cycle \<Rightarrow> (string \<rightharpoonup> real) \<Rightarrow> world" where
  "cycle_end cfg c first_seen =
     register_in_range_devices cfg (c_env c) (c_snapshot c) (c_connected c) (c_devices c)
       (c_now c) (cycle_start c first_seen)"

fun run_cycles :: "config \<Rightarrow> cycle list \<Rightarrow> (string \<rightharpoonup> real) \<Rightarrow> (string \<rightharpoonup> real)" where
  "run_cycles cfg [] first_seen = first_seen"
| "run_cycles cfg (c # cs) first_seen =
     run_cycles cfg cs (device_first_seen (cycle_end cfg c first_seen))"

text \<open>The address is in range in the snapshot of a cycle.\<close>

definition observed :: "config \<Rightarrow> cycle \<Rightarrow> string \<Rightarrow> bool" where
  "observed cfg c mac_address =
     (mac_address \<in> set (fst (get_devices_in_range cfg (c_env c) (c_snapshot c) (c_now c)
                                 (c_world c))))"

text \<open>The in-range path hands a registration of the address to the store.\<close>

fun is_registration_of :: "string \<Rightarrow> event \<Rightarrow> bool" where
  "is_registration_of mac_address (Submit (RegisterPendingDevice m n)) = (m = mac_address)"
| "is_registration_of mac_address e = False"

definition registers :: "world \<Rightarrow> world \<Rightarrow> string \<Rightarrow> bool" where
  "registers w w' mac_address = list_ex (is_registration_of mac_address) (new_events w w')"

text \<open>
  A step that at most adds first-seen entries with the time \<open>now\<close> for addresses of \<open>M\<close>
  that had none, and changes nothing else.
\<close>

definition seen_step :: "real \<Rightarrow> string set \<Rightarrow> world \<Rightarrow> world \<Rightarrow> bool" where
  "seen_step now M w w' =
     (\<exists>fs. w' = w\<lparr>device_first_seen := fs\<rparr>
         \<and> (\<forall>m. fs m = device_first_seen w m
                 \<or> (device_first_seen w m = None \<and> fs m = Some now \<and> m \<in> M)))"

subsection \<open>Status updates\<close>

text \<open>\<^verbatim>\<open>log_attendance\<close>, lines 373-401.\<close>

definition log_attendance ::
  "config \<Rightarrow> env \<Rightarrow> string \<Rightarrow> string option \<Rightarrow> string \<Rightarrow> world \<Rightarrow> bool \<times> world" where
  "log_attendance cfg ev mac_address user_name new_status w =
     (case submit_convex_call cfg ev (LogAttendance mac_address user_name new_status)
             (mutation_reply ev (tick w)) w of
        (None, w1) \<Rightarrow> (False, w1)
      | (Some result, w1) \<Rightarrow> (True, w1))"

text \<open>\<^verbatim>\<open>get_device_by_mac\<close>, lines 210-228: the first record with the address.\<close>

definition get_device_by_mac ::
  "config \<Rightarrow> env \<Rightarrow> string \<Rightarrow> world \<Rightarrow> known_device option \<times> world" where
  "get_device_by_mac cfg ev mac_address w =
     (case get_known_devices cfg ev w of (devices, w1) \<Rightarrow>
        (List.find (\<lambda>device. macAddress device = Some mac_address) devices, w1))"

text \<open>
  \<^verbatim>\<open>devices_by_mac\<close>, lines 587-591 of \<^verbatim>\<open>check_and_update_devices\<close>: a dict
  comprehension, so a later record of the same address replaces an earlier one.
\<close>

definition devices_by_mac :: "known_device list \<Rightarrow> (string \<times> known_device) list" where
  "devices_by_mac devices =
     foldl (\<lambda>acc device. if truthy (macAddress device)
                          then AList.update (the (macAddress device)) device acc else acc)
       [] devices"

definition status_of :: "bool \<Rightarrow> string" where
  "status_of is_present = (if is_present then ''present'' else ''absent'')"

text \<open>\<^verbatim>\<open>device.get("name", mac_address)\<close>, replaced by first and last name when both are set.\<close>

definition attendance_name :: "known_device \<Rightarrow> string \<Rightarrow> string option" where
  "attendance_name device mac_address =
     (if truthy (firstName device) \<and> truthy (lastName device)
      then Some (the (firstName device) @ '' '' @ the (lastName device))
      else (case display_name device of
              Missing \<Rightarrow> Some mac_address | Null \<Rightarrow> None | Val n \<Rightarrow> Some n))"

text \<open>
  \<^verbatim>\<open>update_device_status\<close>, lines 404-458. \<open>current_status\<close> is the status handed in
  (\<open>None\<close> for Python's \<open>None\<close>); \<open>device_cache\<close> is the dict handed in, if any.
\<close>

definition update_device_status ::
  "config \<Rightarrow> env \<Rightarrow> string \<Rightarrow> bool \<Rightarrow> string option \<Rightarrow> (string \<times> known_device) list option \<Rightarrow>
     world \<Rightarrow> bool \<times> world" where
  "update_device_status cfg ev mac_address is_connected current_status device_cache w =
     (let new_status = status_of is_connected;
          previous_status = (case current_status of
                               Some s \<Rightarrow> Some s
                             | None \<Rightarrow> device_previous_status w mac_address)
      in if previous_status = Some new_status
         then (True, w\<lparr>device_previous_status :=
                         (device_previous_status w)(mac_address \<mapsto> new_status)\<rparr>)
         else
           (case submit_convex_call cfg ev (UpdateDeviceStatus mac_address new_status)
                   (mutation_reply ev (tick w)) w of
              (None, w1) \<Rightarrow> (False, w1)
            | (Some result, w1) \<Rightarrow>
                (case (case device_cache of
                         None \<Rightarrow> get_device_by_mac cfg ev mac_address w1
                       | Some cache \<Rightarrow>
                           if cache = [] then get_device_by_mac cfg ev mac_address w1
                           else (map_of cache mac_address, w1)) of
                   (device, w2) \<Rightarrow>
                     (let w3 = (case device of
                                  None \<Rightarrow> w2
                                | Some d \<Rightarrow>
                                    if \<not> pendingRegistration d
                                    then snd (log_attendance cfg ev mac_address
                                                (attendance_name d mac_address) new_status w2)
                                    else w2)
                      in (True, w3\<lparr>device_previous_status :=
                                      (device_previous_status w3)
                                        (mac_address \<mapsto> new_status)\<rparr>)))))"

text \<open>\<^verbatim>\<open>device.get("status", "unknown")\<close>.\<close>

definition current_status_of :: "known_device \<Rightarrow> string option" where
  "current_status_of device =
     (case status device of Missing \<Rightarrow> Some ''unknown'' | Null \<Rightarrow> None | Val s \<Rightarrow> Some s)"

text \<open>
  The body of the status loop of \<^verbatim>\<open>check_and_update_devices\<close>, lines 752-783, for one
  record of the store's list.
\<close>

definition update_status_of ::
  "config \<Rightarrow> env \<Rightarrow> string set \<Rightarrow> (string \<times> known_device) list \<Rightarrow> known_device \<Rightarrow> world \<Rightarrow>
     world" where
  "update_status_of cfg ev present_set by_mac device w =
     (if \<not> truthy (macAddress device) then w
      else
        let mac_address = the (macAddress device);
            current_status = current_status_of device;
            is_present = (mac_address \<in> present_set);
            new_status = status_of is_present
        in if Some new_status \<noteq> current_status
           then snd (update_device_status cfg ev mac_address is_present current_status
                       (Some by_mac) w)
           else w\<lparr>device_previous_status :=
                    (device_previous_status w)(mac_address \<mapsto> new_status)\<rparr>)"

text \<open>The loop, lines 751-783.\<close>

fun update_statuses ::
  "config \<Rightarrow> env \<Rightarrow> string set \<Rightarrow> (string \<times> known_device) list \<Rightarrow> known_device list \<Rightarrow>
     world \<Rightarrow> world" where
  "update_statuses cfg ev present_set by_mac [] w = w"
| "update_statuses cfg ev present_set by_mac (device # rest) w =
     update_statuses cfg ev present_set by_mac rest
       (update_status_of cfg ev present_set by_mac device w)"

text \<open>
  The last-known status of a record: the status the store gave, and, where the store gave
  \<open>None\<close>, the status the tracker remembers having reported.
\<close>

definition last_known_status :: "world \<Rightarrow> known_device \<Rightarrow> string option" where
  "last_known_status w device =
     (case current_status_of device of
        Some s \<Rightarrow> Some s
      | None \<Rightarrow> device_previous_status w (the (macAddress device)))"

text \<open>The status updates among the outside actions, and the store calls among them.\<close>

fun is_status_update :: "event \<Rightarrow> bool" where
  "is_status_update (Submit (UpdateDeviceStatus m s)) = True"
| "is_status_update e = False"

fun is_store_call :: "event \<Rightarrow> bool" where
  "is_store_call (Submit call) = True"
| "is_store_call e = False"

definition circuit_open :: "env \<Rightarrow> world \<Rightarrow> bool" where
  "circuit_open ev w = (monotonic ev (tick w) < convex_circuit_open_until w)"

text \<open>
  A status update is justified by the store's list: it is for the address of a record, it
  carries the status derived from the presence set, and that record's store status is a
  different one.
\<close>

fun status_update_justified :: "string set \<Rightarrow> known_device list \<Rightarrow> event \<Rightarrow> bool" where
  "status_update_justified present_set devices (Submit (UpdateDeviceStatus m s)) =
     list_ex (\<lambda>device. macAddress device = Some m \<and> s = status_of (m \<in> present_set)
                \<and> status device \<noteq> Val s) devices"
| "status_update_justified present_set devices e = True"

section \<open>Concrete scenarios\<close>

text \<open>Two consecutive timeouts have been counted; the clock reads 100, then 110.\<close>

definition two_timeouts_world :: world where
  "two_timeouts_world = initial_world\<lparr>convex_consecutive_timeouts := 2\<rparr>"

definition clock_100_env :: env where
  "clock_100_env = quiet_env\<lparr>monotonic := (\<lambda>n. 100 + 10 * real n)\<rparr>"

text \<open>The address of the repository's tests, and a second one.\<close>

definition MAC :: string where
  "MAC = ''AA:BB:CC:DD:EE:FF''"

definition OTHER_MAC :: string where
  "OTHER_MAC = ''11:22:33:44:55:66''"

definition mock_info :: device_info where
  "mock_info =
     \<lparr> path = Some ''/dev/mock'', address = Some MAC, name = Some ''phone'', alias = None,
       connected = False, paired = True, trusted = True, rssi = None, tx_power = None \<rparr>"

text \<open>The snapshot of the tests: one paired, trusted device that is not connected.\<close>

definition mock_snapshot :: snapshot where
  "mock_snapshot = [(MAC, mock_info)]"

text \<open>
  The link layer reports the device as connected in every fresh snapshot, while every
  read of the live property fails.
\<close>

definition connected_object :: managed_object where
  "connected_object =
     \<lparr> object_path = ''/dev/mock'',
       device1 = Some \<lparr> Address = Some MAC, Name = Some ''phone'', Alias = None,
                        Connected = Some True, Paired = Some True, Trusted = Some True,
                        RSSI = None, TxPower = None \<rparr>,
       adapter1 = False \<rparr>"

definition unreadable_env :: env where
  "unreadable_env = quiet_env\<lparr>managed_objects := (\<lambda>n. Some [connected_object])\<rparr>"

text \<open>A device that has failed 1024 probes in a row; its last backoff ended at time 50.\<close>

definition long_absent_world :: world where
  "long_absent_world =
     initial_world\<lparr>failed_connection_attempts := [MAC \<mapsto> 1024],
                   next_probe_allowed_at := [MAC \<mapsto> 50]\<rparr>"

text \<open>
  A second device, paired but not connected, next to the first one, now connected; the
  store knows neither of them, only a third address. The link layer has one adapter.
\<close>

definition other_info :: device_info where
  "other_info =
     \<lparr> path = Some ''/dev/other'', address = Some OTHER_MAC, name = Some ''watch'',
       alias = None, connected = False, paired = True, trusted = True, rssi = None,
       tx_power = None \<rparr>"

definition two_device_snapshot :: snapshot where
  "two_device_snapshot = [(MAC, mock_info\<lparr>connected := True\<rparr>), (OTHER_MAC, other_info)]"

definition third_device :: known_device where
  "third_device =
     \<lparr> macAddress = Some ''00:00:00:00:00:01'', display_name = Val ''laptop'',
       firstName = None, lastName = None, status = Val ''absent'',
       pendingRegistration = False \<rparr>"

definition adapter_object :: managed_object where
  "adapter_object = \<lparr> object_path = ''/org/bluez/hci0'', device1 = None, adapter1 = True \<rparr>"

definition adapter_env :: env where
  "adapter_env = quiet_env\<lparr>managed_objects := (\<lambda>n. Some [adapter_object]),
                          remove_reply := (\<lambda>n. True)\<rparr>"

text \<open>
  The link layer fails to answer the first and the third request for its objects; every
  other answer shows the adapter and one device, paired and connected.
\<close>

definition connected_snapshot :: snapshot where
  "connected_snapshot = [(MAC, mock_info\<lparr>connected := True\<rparr>)]"

definition flaky_env :: env where
  "flaky_env =
     quiet_env\<lparr>managed_objects :=
                 (\<lambda>n. if n = 0 \<or> n = 2 then None else Some [adapter_object, connected_object]),
               remove_reply := (\<lambda>n. True)\<rparr>"

text \<open>
  A probe of two addresses the link layer has no record of. One was last attempted at
  wall-clock time 500, the other never; the wall clock now reads 1000.
\<close>

definition THIRD_MAC :: string where
  "THIRD_MAC = ''00:00:00:00:00:01''"

definition probed_before_world :: world where
  "probed_before_world = initial_world\<lparr>last_connection_attempts := [OTHER_MAC \<mapsto> 500]\<rparr>"

definition wall_1000_env :: env where
  "wall_1000_env = quiet_env\<lparr>wall_time := (\<lambda>n. 1000)\<rparr>"

definition no_cap_config :: config where
  "no_cap_config = default_config\<lparr>MAX_RECONNECT_PER_CYCLE := 0\<rparr>"

text \<open>
  A probe with a maximum of two. A fourth address was last attempted at time 300; the
  first address is spelt in lower case by the caller.
\<close>

definition FOURTH_MAC :: string where
  "FOURTH_MAC = ''00:00:00:00:00:02''"

definition lower_case_MAC :: string where
  "lower_case_MAC = ''aa:bb:cc:dd:ee:ff''"

definition cap_two_config :: config where
  "cap_two_config = default_config\<lparr>MAX_RECONNECT_PER_CYCLE := 2\<rparr>"

definition two_probed_world :: world where
  "two_probed_world =
     initial_world\<lparr>last_connection_attempts := [OTHER_MAC \<mapsto> 500, FOURTH_MAC \<mapsto> 300]\<rparr>"

text \<open>
  A paired device with a signal reading, not connected and unknown to the store, seen in
  two cycles twelve seconds apart; the discovery refresh is recent in both, and the store
  accepts mutations.
\<close>

definition seen_info :: device_info where
  "seen_info = other_info\<lparr>rssi := Some (- 60)\<rparr>"

definition seen_snapshot :: snapshot where
  "seen_snapshot = [(OTHER_MAC, seen_info)]"

definition store_ok_env :: env where
  "store_ok_env = quiet_env\<lparr>mutation_reply := (\<lambda>n. Returned (Some ()))\<rparr>"

definition first_cycle :: cycle where
  "first_cycle =
     \<lparr> c_env = store_ok_env, c_snapshot = seen_snapshot, c_connected = {}, c_devices = [],
       c_now = 100, c_world = initial_world\<lparr>last_rssi_refresh_time := 95\<rparr> \<rparr>"

definition second_cycle :: cycle where
  "second_cycle =
     \<lparr> c_env = store_ok_env, c_snapshot = seen_snapshot, c_connected = {}, c_devices = [],
       c_now = 112, c_world = initial_world\<lparr>last_rssi_refresh_time := 110\<rparr> \<rparr>"

text \<open>
  The store lists the first device as absent while it is in the presence set. In one
  scenario the circuit is open until time 40 and the clock reads 12.
\<close>

definition absent_device :: known_device where
  "absent_device =
     \<lparr> macAddress = Some MAC, display_name = Val ''phone'', firstName = None,
       lastName = None, status = Val ''absent'', pendingRegistration = False \<rparr>"

definition open_circuit_world :: world where
  "open_circuit_world = initial_world\<lparr>convex_circuit_open_until := 40\<rparr>"

definition clock_12_env :: env where
  "clock_12_env = quiet_env\<lparr>monotonic := (\<lambda>n. 12)\<rparr>"

section \<open>Properties\<close>

subsection \<open>Circuit breaker\<close>

lemma submit_open:
  assumes "monotonic ev (tick w) < convex_circuit_open_until w"
  shows "submit_convex_call cfg ev call reply w = (None, advance w)"
  using assms by (simp add: submit_convex_call_def advance_def Let_def)

text \<open>
  C1. Whenever the wrapper is entered while the circuit is open (the monotonic clock reads
  less than the circuit-open-until time), it returns \<open>None\<close>, whatever the wrapped call
  would have done; nothing is handed to the worker pool (the trace of outside actions is
  unchanged), and the breaker's own state is untouched.
\<close>

theorem C1_open_circuit_rejects_without_submitting:
  assumes "monotonic ev (tick w) < convex_circuit_open_until w"
  shows "fst (submit_convex_call cfg ev call reply w) = None
       \<and> trace (snd (submit_convex_call cfg ev call reply w)) = trace w
       \<and> Submit call \<notin> set (drop (length (trace w))
             (trace (snd (submit_convex_call cfg ev call reply w))))
       \<and> convex_consecutive_timeouts (snd (submit_convex_call cfg ev call reply w))
           = convex_consecutive_timeouts w
       \<and> convex_circuit_open_until (snd (submit_convex_call cfg ev call reply w))
           = convex_circuit_open_until w"
  by (simp add: submit_open [OF assms] advance_def)

theorem C1_witness:
  "monotonic (quiet_env\<lparr>monotonic := (\<lambda>n. 12)\<rparr>) (tick (initial_world\<lparr>convex_circuit_open_until := 40\<rparr>))
      < convex_circuit_open_until (initial_world\<lparr>convex_circuit_open_until := 40\<rparr>)
   \<and> fst (submit_convex_call default_config (quiet_env\<lparr>monotonic := (\<lambda>n. 12)\<rparr>) GetDevices
           (Returned (Some [])) (initial_world\<lparr>convex_circuit_open_until := 40\<rparr>))
       = (None :: known_device list option)
   \<and> trace (snd (submit_convex_call default_config (quiet_env\<lparr>monotonic := (\<lambda>n. 12)\<rparr>) GetDevices
           (Returned (Some ([] :: known_device list))) (initial_world\<lparr>convex_circuit_open_until := 40\<rparr>)))
       = []"
proof -
  have h: "monotonic (quiet_env\<lparr>monotonic := (\<lambda>n. 12)\<rparr>)
             (tick (initial_world\<lparr>convex_circuit_open_until := 40\<rparr>))
           < convex_circuit_open_until (initial_world\<lparr>convex_circuit_open_until := 40\<rparr>)"
    by (simp add: quiet_env_def initial_world_def)
  from C1_open_circuit_rejects_without_submitting [OF h, where cfg = default_config
      and call = GetDevices and reply = "Returned (Some ([] :: known_device list))"]
  show ?thesis using h by (simp add: initial_world_def)
qed

lemma submit_closed:
  assumes "\<not> monotonic ev (tick w) < convex_circuit_open_until w"
  shows "submit_convex_call cfg ev call reply w =
     (case reply of
        Returned result \<Rightarrow>
          (result, (emit (Submit call) (advance w))\<lparr>convex_consecutive_timeouts := 0\<rparr>)
      | TimedOut \<Rightarrow>
          (if convex_consecutive_timeouts w + 1 \<ge> MAX_CONVEX_CONSECUTIVE_TIMEOUTS cfg
           then (None, (advance (emit (Submit call) (advance w)))
                   \<lparr>convex_consecutive_timeouts := convex_consecutive_timeouts w + 1,
                    convex_circuit_open_until :=
                      monotonic ev (Suc (tick w)) + CONVEX_CIRCUIT_OPEN_SECONDS cfg\<rparr>)
           else (None, (emit (Submit call) (advance w))
                   \<lparr>convex_consecutive_timeouts := convex_consecutive_timeouts w + 1\<rparr>))
      | Raised \<Rightarrow>
          (None, (emit (Submit call) (advance w))\<lparr>convex_consecutive_timeouts := 0\<rparr>))"
  using assms
  by (cases reply) (simp_all add: submit_convex_call_def advance_def emit_def Let_def)

text \<open>
  C7. For a call that is let through (the circuit is not open): a timeout adds exactly one
  to the consecutive-timeout counter, and the circuit-open-until time becomes the clock
  reading taken at that moment plus the open duration exactly when the new count has
  reached the threshold, and is unchanged otherwise; a returned result and an error other
  than a timeout both set the counter to zero and leave the circuit-open-until time as it
  was. The result is the call's result on success and \<open>None\<close> otherwise.
\<close>

theorem C7_breaker_counts_timeouts_only:
  assumes "\<not> monotonic ev (tick w) < convex_circuit_open_until w"
  shows "(case submit_convex_call cfg ev call reply w of (r, w') \<Rightarrow>
     (case reply of
        TimedOut \<Rightarrow>
          r = None
          \<and> convex_consecutive_timeouts w' = convex_consecutive_timeouts w + 1
          \<and> convex_circuit_open_until w' =
              (if convex_consecutive_timeouts w + 1 \<ge> MAX_CONVEX_CONSECUTIVE_TIMEOUTS cfg
               then monotonic ev (Suc (tick w)) + CONVEX_CIRCUIT_OPEN_SECONDS cfg
               else convex_circuit_open_until w)
      | Returned result \<Rightarrow>
          r = result
          \<and> convex_consecutive_timeouts w' = 0
          \<and> convex_circuit_open_until w' = convex_circuit_open_until w
      | Raised \<Rightarrow>
          r = None
          \<and> convex_consecutive_timeouts w' = 0
          \<and> convex_circuit_open_until w' = convex_circuit_open_until w))"
  by (cases reply) (simp_all add: submit_closed [OF assms] advance_def emit_def)

theorem C7_witness:
  "\<not> monotonic clock_100_env (tick two_timeouts_world)
        < convex_circuit_open_until two_timeouts_world
   \<and> convex_consecutive_timeouts (snd (submit_convex_call default_config clock_100_env
         GetDevices (TimedOut :: known_device list outcome) two_timeouts_world)) = 3
   \<and> convex_circuit_open_until (snd (submit_convex_call default_config clock_100_env
         GetDevices (TimedOut :: known_device list outcome) two_timeouts_world)) = 140
   \<and> convex_consecutive_timeouts (snd (submit_convex_call default_config clock_100_env
         GetDevices (Raised :: known_device list outcome) two_timeouts_world)) = 0
   \<and> convex_circuit_open_until (snd (submit_convex_call default_config clock_100_env
         GetDevices (Raised :: known_device list outcome) two_timeouts_world)) = 0"
proof -
  have h: "\<not> monotonic clock_100_env (tick two_timeouts_world)
             < convex_circuit_open_until two_timeouts_world"
    by (simp add: clock_100_env_def two_timeouts_world_def quiet_env_def initial_world_def)
  from C7_breaker_counts_timeouts_only [OF h, where cfg = default_config
         and call = GetDevices and reply = "TimedOut :: known_device list outcome"]
       C7_breaker_counts_timeouts_only [OF h, where cfg = default_config
         and call = GetDevices and reply = "Raised :: known_device list outcome"]
  show ?thesis using h
    by (simp add: split_beta clock_100_env_def two_timeouts_world_def quiet_env_def
          initial_world_def default_config_def)
qed

subsection \<open>Strings and snapshots\<close>

lemma upper_char_idem: "upper_char (upper_char c) = upper_char c"
proof -
  define n :: nat where "n = of_char c"
  show ?thesis
  proof (cases "97 \<le> n \<and> n \<le> 122")
    case True
    then have "n - 32 < 256" by linarith
    then have a: "(n - 32) mod 256 = n - 32" by (rule mod_less)
    from True have b: "\<not> 97 \<le> n - 32" by linarith
    have "upper_char c = char_of (n - 32)"
      using True by (simp add: upper_char_def n_def)
    moreover have "upper_char (char_of (n - 32)) = char_of (n - 32)"
      using a b by (simp add: upper_char_def)
    ultimately show ?thesis by simp
  next
    case False
    then have "upper_char c = c" by (auto simp add: upper_char_def n_def)
    then show ?thesis by simp
  qed
qed

lemma upper_idem: "upper (upper s) = upper s"
  by (simp add: upper_def upper_char_idem)

lemma upper_MAC: "upper MAC = MAC"
  unfolding MAC_def by code_simp

lemma upper_OTHER_MAC: "upper OTHER_MAC = OTHER_MAC"
  unfolding OTHER_MAC_def by code_simp

lemma MAC_neq: "OTHER_MAC \<noteq> MAC"
  by (simp add: MAC_def OTHER_MAC_def)

subsection \<open>Connecting without a link handle\<close>

lemma fetch_step_refl: "fetch_step w w"
  unfolding fetch_step_def by (rule exI [of _ 0]) simp

lemma fetch_step_trans: "fetch_step a b \<Longrightarrow> fetch_step b c \<Longrightarrow> fetch_step a c"
  unfolding fetch_step_def
  apply (elim exE)
  subgoal for n m
    by (rule exI [of _ "n + m"]) (simp add: replicate_add)
  done

lemma get_device_snapshot_eq:
  "get_device_snapshot ev w = (fresh_snapshot ev (tick w), emit GetManagedObjects (advance w))"
  by (simp add: get_device_snapshot_def fresh_snapshot_def Let_def split: option.splits)

lemma fetch_step_one: "fetch_step w (emit GetManagedObjects (advance w))"
  unfolding fetch_step_def by (rule exI [of _ 1]) (simp add: advance_def emit_def)

lemma snapshot_or_fetch_cases:
  obtains (given) s where "snapshot = Some s" "s \<noteq> []" "snapshot_or_fetch ev snapshot w = (s, w)"
  | (fetched) "snapshot = None \<or> snapshot = Some []"
      "snapshot_or_fetch ev snapshot w = (fresh_snapshot ev (tick w), emit GetManagedObjects (advance w))"
  by (cases snapshot) (auto simp: snapshot_or_fetch_def get_device_snapshot_eq)

lemma snapshot_or_fetch_step: "fetch_step w (snd (snapshot_or_fetch ev snapshot w))"
  by (cases rule: snapshot_or_fetch_cases [of snapshot ev w])
     (simp_all add: fetch_step_refl fetch_step_one)

lemma get_device_path_step: "fetch_step w (snd (get_device_path ev m snapshot w))"
  using snapshot_or_fetch_step [of w ev snapshot]
  by (auto simp: get_device_path_def split: prod.splits option.splits)

lemma is_device_trusted_step: "fetch_step w (snd (is_device_trusted ev m snapshot w))"
  using snapshot_or_fetch_step [of w ev snapshot]
  by (auto simp: is_device_trusted_def split: prod.splits option.splits)

lemma get_device_path_falsy:
  assumes "\<forall>s' \<in> consulted ev s. no_handle s' m"
  shows "\<not> truthy (fst (get_device_path ev m (Some s) w))"
proof (cases "s = []")
  case True
  with assms have "no_handle (fresh_snapshot ev (tick w)) m" by (simp add: consulted_def)
  with True show ?thesis
    by (auto simp: get_device_path_def snapshot_or_fetch_def get_device_snapshot_eq no_handle_def truthy_def
        split: option.splits)
next
  case False
  with assms have "no_handle s m" by (simp add: consulted_def)
  with False show ?thesis
    by (auto simp: get_device_path_def snapshot_or_fetch_def no_handle_def truthy_def split: option.splits)
qed

lemma consulted_fetch:
  assumes "\<forall>s' \<in> consulted ev s. no_handle s' m"
  shows "\<forall>s' \<in> consulted ev (fst (snapshot_or_fetch ev (Some s) w)). no_handle s' m"
  using assms by (auto simp: snapshot_or_fetch_def get_device_snapshot_eq consulted_def)

lemma trust_device_step:
  assumes "\<forall>s' \<in> consulted ev s. no_handle s' m"
  shows "fetch_step w (snd (trust_device ev m (Some s) w))"
proof -
  obtain s1 w1 where a: "snapshot_or_fetch ev (Some s) w = (s1, w1)" by force
  obtain p w2 where b: "get_device_path ev m (Some s1) w1 = (p, w2)" by force
  from consulted_fetch [OF assms, of w] a have "\<forall>s' \<in> consulted ev s1. no_handle s' m" by simp
  from get_device_path_falsy [OF this, of w1] b have "\<not> truthy p" by simp
  moreover have "fetch_step w w1" using snapshot_or_fetch_step [of w ev "Some s"] a by simp
  moreover have "fetch_step w1 w2" using get_device_path_step [of w1 ev m "Some s1"] b by simp
  ultimately show ?thesis
    using a b by (auto simp: trust_device_def intro: fetch_step_trans)
qed

lemma connect_device_no_handle:
  assumes "\<forall>s' \<in> consulted ev (fst (snapshot_or_fetch ev snapshot w)). no_handle s' m"
  shows "fst (connect_device cfg ev m snapshot w) = Inr False
       \<and> fetch_step w (snd (connect_device cfg ev m snapshot w))"
proof -
  obtain s w1 where a: "snapshot_or_fetch ev snapshot w = (s, w1)" by force
  obtain t w2 where b: "is_device_trusted ev m (Some s) w1 = (t, w2)" by force
  define w3 where "w3 = (if \<not> t then snd (trust_device ev m (Some s) w2) else w2)"
  obtain p w4 where c: "get_device_path ev m (Some s) w3 = (p, w4)" by force
  from assms a have h: "\<forall>s' \<in> consulted ev s. no_handle s' m" by simp
  have "\<not> truthy p" using get_device_path_falsy [OF h, of w3] c by simp
  then have r: "connect_device cfg ev m snapshot w = (Inr False, w4)"
    using a b c by (simp add: connect_device_def w3_def Let_def)
  have "fetch_step w w1" using snapshot_or_fetch_step [of w ev snapshot] a by simp
  moreover have "fetch_step w1 w2" using is_device_trusted_step [of w1 ev m "Some s"] b by simp
  moreover have "fetch_step w2 w3"
    using trust_device_step [OF h, of w2] by (simp add: w3_def fetch_step_refl)
  moreover have "fetch_step w3 w4" using get_device_path_step [of w3 ev m "Some s"] c by simp
  ultimately have "fetch_step w w4" by (blast intro: fetch_step_trans)
  with r show ?thesis by simp
qed

text \<open>
  C9. If the address has no usable link handle in any snapshot the call reads (the
  snapshot handed in, or the fresh ones fetched in its place when it is absent or empty),
  \<^verbatim>\<open>connect_device\<close> returns \<open>False\<close>; the only outside actions of the call are snapshot
  fetches, so neither the D-Bus \<^verbatim>\<open>Connect\<close> method nor \<^verbatim>\<open>bluetoothctl\<close> is invoked; and
  no failure is recorded for the address.
\<close>

theorem C9_connect_without_handle_fails_fast:
  assumes "\<forall>s' \<in> consulted ev (fst (snapshot_or_fetch ev snapshot w)). no_handle s' mac_address"
  shows "fst (connect_device cfg ev mac_address snapshot w) = Inr False
       \<and> (\<forall>e \<in> set (new_events w (snd (connect_device cfg ev mac_address snapshot w))).
             e = GetManagedObjects \<and> \<not> is_link_command e)
       \<and> failed_connection_attempts (snd (connect_device cfg ev mac_address snapshot w))
           = failed_connection_attempts w
       \<and> next_probe_allowed_at (snd (connect_device cfg ev mac_address snapshot w))
           = next_probe_allowed_at w"
proof -
  from connect_device_no_handle [OF assms, of cfg]
  have r: "fst (connect_device cfg ev mac_address snapshot w) = Inr False"
    and f: "fetch_step w (snd (connect_device cfg ev mac_address snapshot w))"
    by simp_all
  from f obtain n where
    "snd (connect_device cfg ev mac_address snapshot w) =
       w\<lparr>tick := tick w + n, trace := trace w @ replicate n GetManagedObjects\<rparr>"
    unfolding fetch_step_def by blast
  with r show ?thesis by (simp add: new_events_def)
qed

theorem C9_witness:
  "no_handle mock_snapshot OTHER_MAC
   \<and> fst (connect_device default_config quiet_env OTHER_MAC (Some mock_snapshot) initial_world)
       = Inr False
   \<and> new_events initial_world
        (snd (connect_device default_config quiet_env OTHER_MAC (Some mock_snapshot) initial_world))
       = []"
proof -
  have n: "no_handle mock_snapshot OTHER_MAC"
    by (simp add: no_handle_def mock_snapshot_def upper_OTHER_MAC MAC_neq)
  have s: "snapshot_or_fetch quiet_env (Some mock_snapshot) initial_world
             = (mock_snapshot, initial_world)"
    by (simp add: snapshot_or_fetch_def mock_snapshot_def)
  have h: "\<forall>s' \<in> consulted quiet_env
              (fst (snapshot_or_fetch quiet_env (Some mock_snapshot) initial_world)).
             no_handle s' OTHER_MAC"
  proof -
    have "mock_snapshot \<noteq> []" by (simp add: mock_snapshot_def)
    with n show ?thesis by (simp add: s consulted_def)
  qed
  have e: "new_events initial_world
        (snd (connect_device default_config quiet_env OTHER_MAC (Some mock_snapshot) initial_world))
       = []"
    by (simp add: connect_device_def s is_device_trusted_def trust_device_def get_device_path_def
          snapshot_or_fetch_def mock_snapshot_def upper_OTHER_MAC MAC_neq truthy_def new_events_def)
  from C9_connect_without_handle_fails_fast [OF h, of default_config] n e
  show ?thesis by simp
qed

subsection \<open>Verifying the outcome of an attempt\<close>

lemma get_device_snapshot_fresh:
  "get_device_snapshot ev w = (fresh_snapshot ev (tick w), emit GetManagedObjects (advance w))"
  by (simp add: get_device_snapshot_def fresh_snapshot_def Let_def split: option.splits)

lemma attempts_list: "[0..<max_attempts] = [0, 1, 2]"
  by (simp add: max_attempts_def numeral_3_eq_3)

lemma verify_connected_state_unfold:
  "verify_connected_state ev mac_address device_path expect_connected w =
    (let r0 = connected_property ev (tick w);
         r1 = connected_property ev (tick w + 1);
         r2 = connected_property ev (tick w + 2);
         rd = ReadConnected device_path;
         pre = trace w
     in if matches expect_connected r0
          then (True, w\<lparr>tick := tick w + 1, trace := pre @ [rd]\<rparr>)
        else if matches expect_connected r1
          then (True, w\<lparr>tick := tick w + 2, trace := pre @ [rd, Sleep 0.2, rd]\<rparr>)
        else if matches expect_connected r2
          then (True, w\<lparr>tick := tick w + 3,
                       trace := pre @ [rd, Sleep 0.2, rd, Sleep 0.4, rd]\<rparr>)
        else ((case map_of (fresh_snapshot ev (tick w + 3)) (upper mac_address) of
                 None \<Rightarrow> False | Some device \<Rightarrow> connected device) = expect_connected,
              w\<lparr>tick := tick w + 4,
                trace := pre @ [rd, Sleep 0.2, rd, Sleep 0.4, rd, GetManagedObjects]\<rparr>))"
  unfolding verify_connected_state_def attempts_list
  by (auto simp: max_attempts_def numeral_3_eq_3 numeral_2_eq_2
        read_connected_property_def sleep_before_retry_def base_delay_def matches_def Let_def
        check_device_connected_def snapshot_or_fetch_def get_device_snapshot_fresh advance_def
        emit_def
        split: option.splits bool.splits)

text \<open>
  C6 (as amended). Verification reads the live property at most three times and returns
  success at the first read that shows the expected state; it sleeps 0.2 s after a first
  and 0.4 s after a second read that did not show it, and not after the third. Only when
  none of the three reads showed the expected state does it make a final check, and that
  check is made against a freshly fetched snapshot (a new \<^verbatim>\<open>GetManagedObjects\<close> call),
  not against the snapshot the attempt worked from.
\<close>

theorem C6_three_reads_then_fresh_snapshot:
  "verify_connected_state ev mac_address device_path expect_connected w =
    (let r0 = connected_property ev (tick w);
         r1 = connected_property ev (tick w + 1);
         r2 = connected_property ev (tick w + 2);
         rd = ReadConnected device_path;
         pre = trace w
     in if matches expect_connected r0
          then (True, w\<lparr>tick := tick w + 1, trace := pre @ [rd]\<rparr>)
        else if matches expect_connected r1
          then (True, w\<lparr>tick := tick w + 2, trace := pre @ [rd, Sleep 0.2, rd]\<rparr>)
        else if matches expect_connected r2
          then (True, w\<lparr>tick := tick w + 3,
                       trace := pre @ [rd, Sleep 0.2, rd, Sleep 0.4, rd]\<rparr>)
        else ((case map_of (fresh_snapshot ev (tick w + 3)) (upper mac_address) of
                 None \<Rightarrow> False | Some device \<Rightarrow> connected device) = expect_connected,
              w\<lparr>tick := tick w + 4,
                trace := pre @ [rd, Sleep 0.2, rd, Sleep 0.4, rd, GetManagedObjects]\<rparr>))"
  by (rule verify_connected_state_unfold)

lemma MAC_nonempty: "MAC \<noteq> []"
  by (simp add: MAC_def)

lemma fresh_unreadable: "fresh_snapshot unreadable_env n = [(MAC, mock_info\<lparr>connected := True\<rparr>)]"
  by (simp add: MAC_nonempty fresh_snapshot_def unreadable_env_def quiet_env_def connected_object_def
        normalize_mac_def truthy_def upper_MAC device_info_of_def dbus_bool_def mock_info_def)

text \<open>
  The claim as stated fails: with every property read failing, a last snapshot in which
  the device is not connected and a link layer that by now reports it connected, the code
  verifies the connection, while a final check against the last snapshot would not.
\<close>

theorem C6_counterexample:
  "fst (verify_connected_state unreadable_env MAC ''/dev/mock'' True initial_world) = True
   \<and> fst (verify_connected_state_spec unreadable_env mock_snapshot MAC ''/dev/mock'' True
            initial_world) = False"
proof -
  have r: "connected_property unreadable_env n = None" for n
    by (simp add: unreadable_env_def quiet_env_def)
  have a: "fst (verify_connected_state unreadable_env MAC ''/dev/mock'' True initial_world)
             = True"
    unfolding verify_connected_state_def attempts_list
    by (simp add: read_connected_property_def r check_device_connected_def snapshot_or_fetch_def
          get_device_snapshot_fresh fresh_unreadable upper_MAC)
  have b: "fst (verify_connected_state_spec unreadable_env mock_snapshot MAC ''/dev/mock'' True
                  initial_world) = False"
    unfolding verify_connected_state_spec_def attempts_list
    by (simp add: read_connected_property_def r check_device_connected_def snapshot_or_fetch_def
          mock_snapshot_def mock_info_def upper_MAC)
  from a b show ?thesis by simp
qed

subsection \<open>Failure counting and backoff\<close>

lemma pow2_small: "k < 1024 \<Longrightarrow> (2::int) ^ k < 2 ^ 1024 - 2 ^ 970"
proof -
  assume "k < 1024"
  then have "k \<le> 1023" by simp
  then have "(2::int) ^ k \<le> 2 ^ 1023" by (rule power_increasing) simp
  moreover have "(2::int) ^ 970 < 2 ^ 1023" by (rule power_strict_increasing) simp_all
  moreover have "(2::int) ^ 1024 = 2 * 2 ^ 1023" by (simp add: power_Suc [symmetric] del: power_Suc)
  ultimately show ?thesis by linarith
qed

lemma pow2_large: "1024 \<le> k \<Longrightarrow> \<not> (2::int) ^ k < 2 ^ 1024 - 2 ^ 970"
proof -
  assume "1024 \<le> k"
  then have "(2::int) ^ 1024 \<le> 2 ^ k" by (rule power_increasing) simp
  moreover have "(0::int) < 2 ^ 970" by simp
  ultimately show ?thesis by linarith
qed

lemma float_of_int_pow2:
  "float_of_int (2 ^ k) = (if k < 1024 then Inr (2 ^ k) else Inl OverflowError)"
  using pow2_small [of k] pow2_large [of k] by (simp add: float_of_int_def)

text \<open>
  Up to 1024 consecutive failures the code does what the specification says: the count
  goes up by one and the next attempt is allowed \<open>backoff_delay\<close> seconds from now.
\<close>

lemma record_probe_failure_in_range:
  assumes "0 \<le> failure_count w m" and "failure_count w m < 1024"
  shows "record_probe_failure cfg ev m w =
           (Inr (), w\<lparr>failed_connection_attempts :=
                         (failed_connection_attempts w)(m \<mapsto> failure_count w m + 1),
                       next_probe_allowed_at :=
                         (next_probe_allowed_at w)
                           (m \<mapsto> monotonic ev (tick w) + backoff_delay cfg (failure_count w m + 1)),
                       tick := Suc (tick w)\<rparr>)"
proof -
  from assms have "nat (failure_count w m) < 1024" by simp
  with assms show ?thesis
    by (simp add: record_probe_failure_def failure_count_def [symmetric] float_of_int_pow2
          backoff_delay_def advance_def Let_def)
qed

text \<open>From the 1025th consecutive failure on, the count still goes up, but the
  computation of the delay raises and the next-allowed time is left as it was.\<close>

lemma record_probe_failure_overflow:
  assumes "1024 \<le> failure_count w m"
  shows "record_probe_failure cfg ev m w =
           (Inl OverflowError,
            w\<lparr>failed_connection_attempts :=
                 (failed_connection_attempts w)(m \<mapsto> failure_count w m + 1)\<rparr>)"
proof -
  from assms have "\<not> nat (failure_count w m) < 1024" by simp
  with assms show ?thesis
    by (simp add: record_probe_failure_def failure_count_def [symmetric] float_of_int_pow2
          Let_def)
qed

lemma backoff_delay_le_cap: "backoff_delay cfg failures \<le> PROBE_BACKOFF_MAX_SECONDS cfg"
  by (simp add: backoff_delay_def)

lemma backoff_delay_mono:
  assumes "0 \<le> PROBE_BACKOFF_BASE_SECONDS cfg" and "a \<le> b"
  shows "backoff_delay cfg a \<le> backoff_delay cfg b"
proof -
  from assms(2) have "nat (a - 1) \<le> nat (b - 1)" by simp
  then have "(2::real) ^ nat (a - 1) \<le> 2 ^ nat (b - 1)" by (rule power_increasing) simp
  with assms(1) have "PROBE_BACKOFF_BASE_SECONDS cfg * 2 ^ nat (a - 1)
                      \<le> PROBE_BACKOFF_BASE_SECONDS cfg * 2 ^ nat (b - 1)"
    by (rule mult_left_mono [rotated])
  then show ?thesis by (simp add: backoff_delay_def min_le_iff_disj)
qed

lemma reset_probe_failure_clears:
  "failed_connection_attempts (reset_probe_failure m w) m = None
   \<and> next_probe_allowed_at (reset_probe_failure m w) m = None"
  by (simp add: reset_probe_failure_def)

lemma failure_count_long_absent: "failure_count long_absent_world MAC = 1024"
  by (simp add: failure_count_def long_absent_world_def initial_world_def)

lemma fresh_quiet: "fresh_snapshot quiet_env n = []"
  by (simp add: fresh_snapshot_def quiet_env_def)

text \<open>
  C2, at the failing input. A device with 1024 recorded consecutive failures fails once
  more (both connect paths fail and the device is not connected afterwards): the count
  becomes 1025, \<^verbatim>\<open>connect_device\<close> is left by \<^verbatim>\<open>OverflowError\<close> instead of returning
  \<open>False\<close>, and the next-allowed-attempt time keeps its old value 50 instead of being set
  to the capped delay from now.
\<close>

theorem C2_backoff_not_set_at_1025_failures:
  "fst (connect_device default_config quiet_env MAC (Some mock_snapshot) long_absent_world)
     = Inl OverflowError
   \<and> failed_connection_attempts
       (snd (connect_device default_config quiet_env MAC (Some mock_snapshot) long_absent_world))
       MAC = Some 1025
   \<and> next_probe_allowed_at
       (snd (connect_device default_config quiet_env MAC (Some mock_snapshot) long_absent_world))
       MAC = Some 50"
proof -
  have s: "snapshot_or_fetch quiet_env (Some mock_snapshot) w = (mock_snapshot, w)" for w
    by (simp add: snapshot_or_fetch_def mock_snapshot_def)
  have l: "map_of mock_snapshot (upper MAC) = Some mock_info"
    by (simp add: mock_snapshot_def upper_MAC)
  have r: "connected_property quiet_env n = None" for n
    by (simp add: quiet_env_def)
  have m: "method_reply quiet_env n = Hung" for n
    by (simp add: quiet_env_def)
  have bt: "bluetoothctl_reply quiet_env n = CtlMissing" for n
    by (simp add: quiet_env_def)
  have v: "fst (verify_connected_state quiet_env MAC ''/dev/mock'' True w) = False" for w
    by (simp add: verify_connected_state_unfold r matches_def fresh_quiet Let_def)
  have c: "failure_count (snd (verify_connected_state quiet_env MAC ''/dev/mock'' True w)) MAC
             = failure_count w MAC" for w
    by (simp add: verify_connected_state_unfold r matches_def failure_count_def Let_def)
  have n: "next_probe_allowed_at
             (snd (verify_connected_state quiet_env MAC ''/dev/mock'' True w))
             = next_probe_allowed_at w" for w
    by (simp add: verify_connected_state_unfold r matches_def Let_def)
  define w6 where "w6 = snd (run_bluetoothctl_operation quiet_env ''connect'' MAC
    (emit (DeviceMethod ''/dev/mock'' ''Connect'') (advance long_absent_world)))"
  have f6: "failure_count w6 MAC = 1024"
    by (simp add: w6_def run_bluetoothctl_operation_def invoke_with_hard_timeout_def m bt
          advance_def emit_def failure_count_def long_absent_world_def initial_world_def)
  have n6: "next_probe_allowed_at w6 MAC = Some 50"
    by (simp add: w6_def run_bluetoothctl_operation_def invoke_with_hard_timeout_def m bt
          advance_def emit_def long_absent_world_def initial_world_def)
  obtain b w7 where vq: "verify_connected_state quiet_env MAC ''/dev/mock'' True w6 = (b, w7)"
    by force
  from v [of w6] c [of w6] n [of w6] vq f6 n6
  have b: "b = False" and f7: "failure_count w7 MAC = 1024"
    and n7: "next_probe_allowed_at w7 MAC = Some 50"
    by simp_all
  have e: "connect_device default_config quiet_env MAC (Some mock_snapshot) long_absent_world
             = (Inl OverflowError,
                w7\<lparr>failed_connection_attempts := (failed_connection_attempts w7)(MAC \<mapsto> 1025)\<rparr>)"
    using vq b f7
    by (simp add: connect_device_def s l is_device_trusted_def get_device_path_def mock_info_def
          truthy_def invoke_with_hard_timeout_def m w6_def [symmetric]
          record_probe_failure_overflow)
  show ?thesis by (simp add: e n7)
qed

subsection \<open>Well-formed snapshots\<close>

lemma wf_snapshot_iff:
  "wf_snapshot s \<longleftrightarrow> distinct (map fst s) \<and> (\<forall>k \<in> fst ` set s. upper k = k)"
  by (auto simp: wf_snapshot_def list_all_iff)

lemma snapshot_of_wf: "wf_snapshot acc \<Longrightarrow> wf_snapshot (snapshot_of objs acc)"
proof (induction objs arbitrary: acc)
  case Nil
  then show ?case by simp
next
  case (Cons obj objs)
  show ?case
  proof (cases "device1 obj")
    case None
    with Cons show ?thesis by simp
  next
    case (Some props)
    show ?thesis
    proof (cases "normalize_mac (Address props)")
      case None
      with Some Cons show ?thesis by simp
    next
      case (Some a)
      then have "upper a = a"
        by (auto simp: normalize_mac_def upper_idem split: if_splits)
      with Cons.prems
      have "wf_snapshot (AList.update a (device_info_of (object_path obj) a props) acc)"
        by (simp add: wf_snapshot_iff distinct_update dom_update)
      from Cons.IH [OF this] Some \<open>device1 obj = Some props\<close> show ?thesis by simp
    qed
  qed
qed

lemma fresh_snapshot_wf: "wf_snapshot (fresh_snapshot ev n)"
proof -
  have "wf_snapshot []" by (simp add: wf_snapshot_def)
  then show ?thesis
    by (auto simp: fresh_snapshot_def intro: snapshot_of_wf split: option.splits)
qed

lemma wf_lookup:
  assumes "wf_snapshot s" and "(k, info) \<in> set s"
  shows "map_of s (upper k) = Some info"
proof -
  from assms have "upper k = k" by (force simp: wf_snapshot_iff)
  moreover from assms have "map_of s k = Some info" by (simp add: wf_snapshot_iff)
  ultimately show ?thesis by simp
qed

subsection \<open>Outside actions of the helpers\<close>

lemma emits_refl: "emits P w w"
  by (simp add: emits_def)

lemma emits_trans: "emits P a b \<Longrightarrow> emits P b c \<Longrightarrow> emits P a c"
  unfolding emits_def
  apply (elim exE conjE)
  subgoal for es fs
    by (rule exI [of _ "es @ fs"]) simp
  done

lemma emits_mono: "emits P a b \<Longrightarrow> (\<And>e. P e \<Longrightarrow> Q e) \<Longrightarrow> emits Q a b"
  unfolding emits_def by (auto simp: list_all_iff)

lemma emits_new_events: "emits P w w' \<Longrightarrow> list_all P (new_events w w')"
  by (auto simp: emits_def new_events_def)

lemma emits_tick: "emits P w w' \<Longrightarrow> emits P w (w'\<lparr>tick := n\<rparr>)"
  by (simp add: emits_def)

lemma emits_emit: "P e \<Longrightarrow> emits P w (emit e w)"
  unfolding emits_def emit_def by (rule exI [of _ "[e]"]) simp

lemma emits_emit_advance: "P e \<Longrightarrow> emits P w (emit e (advance w))"
  unfolding emits_def emit_def advance_def by (rule exI [of _ "[e]"]) simp

lemma fetch_step_emits: "fetch_step w w' \<Longrightarrow> emits (\<lambda>e. e = GetManagedObjects) w w'"
  unfolding fetch_step_def emits_def
  by (auto simp: list_all_iff)

lemma get_managed_objects_emits:
  "emits (\<lambda>e. e = GetManagedObjects) w (snd (get_managed_objects ev w))"
  by (auto simp: get_managed_objects_def intro: emits_emit_advance split: option.splits)

lemma get_adapter_path_emits:
  "emits (\<lambda>e. e = GetManagedObjects) w (snd (get_adapter_path ev objs w))"
proof -
  have "emits (\<lambda>e. e = GetManagedObjects) w (w'\<lparr>adapter_path_cache := c\<rparr>)"
    if "emits (\<lambda>e. e = GetManagedObjects) w w'" for w' c
    using that by (simp add: emits_def)
  with get_managed_objects_emits [of w ev] show ?thesis
    by (auto simp: get_adapter_path_def emits_refl split: option.splits prod.splits sum.splits)
qed

text \<open>With a snapshot that is not empty, a removal acts on the record of the address.\<close>

lemma remove_device_emits:
  assumes "s \<noteq> []"
  shows "emits (\<lambda>e. e = GetManagedObjects \<or>
                  (\<exists>a p info. e = RemoveDevice a p \<and> map_of s (upper m) = Some info
                     \<and> path info = Some p))
           w (snd (remove_device ev m (Some s) w))"
    (is "emits ?P w _")
proof -
  have s: "snapshot_or_fetch ev (Some s) w' = (s, w')" for w'
    using assms by (simp add: snapshot_or_fetch_def)
  show ?thesis
  proof (cases "map_of s (upper m)")
    case None
    then show ?thesis
      by (simp add: remove_device_def s get_device_path_def truthy_def emits_refl)
  next
    case (Some info)
    show ?thesis
    proof (cases "truthy (path info)")
      case False
      with Some show ?thesis
        by (simp add: remove_device_def s get_device_path_def emits_refl)
    next
      case True
      then obtain p where p: "path info = Some p" by (auto simp: truthy_def split: option.splits)
      obtain r3 w3 where g: "get_managed_objects ev w = (r3, w3)" by force
      have e3: "emits ?P w w3"
        using get_managed_objects_emits [of w ev] g by (auto intro: emits_mono)
      show ?thesis
      proof (cases r3)
        case (Inl e)
        with Some True g e3 show ?thesis
          by (simp add: remove_device_def s get_device_path_def)
      next
        case (Inr objs)
        obtain r4 w4 where a: "get_adapter_path ev objs w3 = (r4, w4)" by force
        have "emits ?P w3 w4"
          using get_adapter_path_emits [of w3 ev objs] a by (auto intro: emits_mono)
        with e3 have e4: "emits ?P w w4" by (rule emits_trans)
        have "emits ?P w4 (emit (RemoveDevice ap p) (advance w4))" for ap
          using Some p by (intro emits_emit_advance) simp
        with e4 have "emits ?P w (emit (RemoveDevice ap p) (advance w4))" for ap
          by (rule emits_trans)
        with Some True g Inr a e4 p show ?thesis
          by (auto simp: remove_device_def s get_device_path_def split: sum.splits)
      qed
    qed
  qed
qed

lemma remove_stale_emits:
  assumes "s \<noteq> []"
  shows "emits (\<lambda>e. e = GetManagedObjects \<or>
                  (\<exists>a p info m. e = RemoveDevice a p \<and> m \<in> set ms
                     \<and> map_of s (upper m) = Some info \<and> path info = Some p))
           w (remove_stale ev s ms w)"
proof (induction ms arbitrary: w)
  case Nil
  then show ?case by (simp add: emits_refl)
next
  case (Cons m ms)
  have "emits (\<lambda>e. e = GetManagedObjects \<or>
                  (\<exists>a p info m'. e = RemoveDevice a p \<and> m' \<in> set (m # ms)
                     \<and> map_of s (upper m') = Some info \<and> path info = Some p))
          w (snd (remove_device ev m (Some s) w))"
    using remove_device_emits [OF assms, of m w ev] by (rule emits_mono) auto
  moreover have "emits (\<lambda>e. e = GetManagedObjects \<or>
                  (\<exists>a p info m'. e = RemoveDevice a p \<and> m' \<in> set (m # ms)
                     \<and> map_of s (upper m') = Some info \<and> path info = Some p))
          (snd (remove_device ev m (Some s) w))
          (remove_stale ev s ms (snd (remove_device ev m (Some s) w)))"
    using Cons.IH [of "snd (remove_device ev m (Some s) w)"] by (rule emits_mono) auto
  ultimately show ?case by (simp add: emits_trans)
qed

lemma submit_convex_call_emits:
  "emits (\<lambda>e. e = Submit call) w (snd (submit_convex_call cfg ev call reply w))"
proof (cases "monotonic ev (tick w) < convex_circuit_open_until w")
  case True
  then show ?thesis by (simp add: submit_open advance_def emits_def)
next
  case False
  have "emits (\<lambda>e. e = Submit call) w (emit (Submit call) (advance w))"
    by (rule emits_emit_advance) simp
  then have "emits (\<lambda>e. e = Submit call) w
       ((emit (Submit call) (advance w))\<lparr>convex_consecutive_timeouts := a\<rparr>)"
    and "emits (\<lambda>e. e = Submit call) w
       ((advance (emit (Submit call) (advance w)))\<lparr>convex_consecutive_timeouts := a,
          convex_circuit_open_until := b\<rparr>)" for a b
    by (simp_all add: emits_def advance_def)
  then show ?thesis
    by (cases reply) (simp_all add: submit_closed [OF False])
qed

lemma get_known_devices_emits:
  "emits (\<lambda>e. e = Submit GetDevices) w (snd (get_known_devices cfg ev w))"
  using submit_convex_call_emits [of GetDevices w cfg ev "devices_reply ev (tick w)"]
  by (auto simp: get_known_devices_def split: prod.splits option.splits)

lemma devices_or_fetch_emits:
  "emits (\<lambda>e. e = Submit GetDevices) w (snd (devices_or_fetch cfg ev convex_devices w))"
  using get_known_devices_emits [of w cfg ev]
  by (auto simp: devices_or_fetch_def emits_refl split: option.splits)

lemma cleanup_inputs_emits:
  "emits (\<lambda>e. e = GetManagedObjects) w (snd (cleanup_inputs ev snapshot w))"
proof -
  obtain s w1 where a: "snapshot_or_fetch ev snapshot w = (s, w1)" by force
  obtain s2 w2 where b: "snapshot_or_fetch ev (Some s) w1 = (s2, w2)" by force
  obtain s3 w3 where c: "snapshot_or_fetch ev (Some s) w2 = (s3, w3)" by force
  have "fetch_step w w1" using snapshot_or_fetch_step [of w ev snapshot] a by simp
  moreover have "fetch_step w1 w2" using snapshot_or_fetch_step [of w1 ev "Some s"] b by simp
  moreover have "fetch_step w2 w3" using snapshot_or_fetch_step [of w2 ev "Some s"] c by simp
  ultimately have "fetch_step w w3" by (blast intro: fetch_step_trans)
  then have "emits (\<lambda>e. e = GetManagedObjects) w w3" by (rule fetch_step_emits)
  then show ?thesis
    using a b c
    by (simp add: cleanup_inputs_def get_paired_devices_def get_all_connected_devices_def)
qed

subsection \<open>Stale-pairing cleanup\<close>

lemma cleanup_inputs_nonempty:
  assumes "fst (snapshot_or_fetch ev snapshot w) \<noteq> []"
  shows "cleanup_inputs ev snapshot w =
           ((fst (snapshot_or_fetch ev snapshot w),
             map fst (filter (\<lambda>(m, info). paired info) (fst (snapshot_or_fetch ev snapshot w))),
             map fst (filter (\<lambda>(m, info). connected info) (fst (snapshot_or_fetch ev snapshot w)))),
            snd (snapshot_or_fetch ev snapshot w))"
proof -
  obtain s w1 where a: "snapshot_or_fetch ev snapshot w = (s, w1)" by force
  with assms have "s \<noteq> []" by simp
  then have "snapshot_or_fetch ev (Some s) w' = (s, w')" for w'
    by (simp add: snapshot_or_fetch_def)
  with a show ?thesis
    by (simp add: cleanup_inputs_def get_paired_devices_def get_all_connected_devices_def)
qed

lemma set_items_set [simp]: "set (set_items ev xs) = set xs"
  by (simp add: set_items_def)

lemma set_items_distinct [simp]: "distinct (set_items ev xs)"
  by (simp add: set_items_def)

lemma stale_is_stale_record:
  assumes wf: "wf_snapshot s"
    and m: "m \<in> set (stale_devices ev (map fst (filter (\<lambda>(m, info). paired info) s)) known
                        (map fst (filter (\<lambda>(m, info). connected info) s)))"
    and l: "map_of s (upper m) = Some info" and p: "path info = Some p"
  shows "stale_record s known p"
proof -
  from m obtain info' where i: "(m, info') \<in> set s" "paired info'"
    and k: "m \<notin> set known"
    and c: "m \<notin> set (map fst (filter (\<lambda>(m, info). connected info) s))"
    by (auto simp: stale_devices_def)
  from wf_lookup [OF wf i(1)] l have "info' = info" by simp
  moreover from c i(1) have "\<not> connected info'" by force
  ultimately show ?thesis
    using i k p by (auto simp: stale_record_def list_ex_iff)
qed

text \<open>
  When the snapshot the cleanup works from (the one handed in or, when that is absent or
  empty, the one fetched in its place) is not empty, every helper reads that snapshot, and
  every \<^verbatim>\<open>RemoveDevice\<close> is for the link handle of a record of it that is paired, not
  connected, and whose address is outside the store's list.
\<close>

lemma cleanup_removes_only_stale:
  assumes wf: "wf_snapshot (fst (snapshot_or_fetch ev snapshot w))"
    and ne: "fst (snapshot_or_fetch ev snapshot w) \<noteq> []"
  shows "emits (removes_only_stale (fst (snapshot_or_fetch ev snapshot w))
                  (convex_macs (fst (devices_or_fetch cfg ev convex_devices
                                       (snd (cleanup_inputs ev snapshot w))))))
           w (cleanup_stale_bluetooth_pairings cfg ev convex_devices snapshot w)"
    (is "emits ?Q w _")
proof -
  define s where "s = fst (snapshot_or_fetch ev snapshot w)"
  obtain i w3 where ci: "cleanup_inputs ev snapshot w = (i, w3)"
    using prod.exhaust by blast
  obtain ds w4 where df: "devices_or_fetch cfg ev convex_devices w3 = (ds, w4)" by force
  have e3: "emits ?Q w w3"
    using cleanup_inputs_emits [of w ev snapshot] ci by (auto intro: emits_mono)
  have "emits ?Q w3 w4"
    using devices_or_fetch_emits [of w3 cfg ev convex_devices] df by (auto intro: emits_mono)
  with e3 have e4: "emits ?Q w w4" by (rule emits_trans)
  from ne have False: "s \<noteq> []" by (simp add: s_def)
  let ?pd = "map fst (filter (\<lambda>(m, info). paired info) s)"
  let ?cd = "map fst (filter (\<lambda>(m, info). connected info) s)"
  from False ci have i: "i = (s, ?pd, ?cd)"
    using cleanup_inputs_nonempty [of ev snapshot w] by (simp add: s_def)
  let ?ms = "stale_devices ev ?pd (convex_macs ds) ?cd"
  have "emits ?Q w4 (remove_stale ev s ?ms w4)"
  proof (rule emits_mono [OF remove_stale_emits [OF False]])
    fix e
    assume "e = GetManagedObjects \<or>
             (\<exists>a p info m. e = RemoveDevice a p \<and> m \<in> set ?ms
                \<and> map_of s (upper m) = Some info \<and> path info = Some p)"
    then show "?Q e"
      using stale_is_stale_record [OF wf [folded s_def]] ci df
      by (auto simp: s_def [symmetric])
  qed
  with e4 have "emits ?Q w (remove_stale ev s ?ms w4)" by (rule emits_trans)
  with ci df i e4 show ?thesis
    by (auto simp: cleanup_stale_bluetooth_pairings_def)
qed

lemma get_device_snapshot_wf: "wf_snapshot (fst (get_device_snapshot ev w))"
  by (simp add: get_device_snapshot_fresh fresh_snapshot_wf)

lemma upper_known: "upper MAC = MAC \<and> upper OTHER_MAC = OTHER_MAC \<and> MAC \<noteq> OTHER_MAC"
  using upper_MAC upper_OTHER_MAC MAC_neq by auto

lemma two_device_snapshot_wf: "wf_snapshot two_device_snapshot"
  using upper_known by (simp add: wf_snapshot_def two_device_snapshot_def)

lemma two_device_snapshot_given:
  "snapshot_or_fetch ev (Some two_device_snapshot) w = (two_device_snapshot, w)"
  by (simp add: snapshot_or_fetch_def two_device_snapshot_def)

lemma two_device_inputs:
  "cleanup_inputs ev (Some two_device_snapshot) w =
     ((two_device_snapshot, [MAC, OTHER_MAC], [MAC]), w)"
  by (simp add: cleanup_inputs_def two_device_snapshot_given get_paired_devices_def
        get_all_connected_devices_def)
     (simp add: two_device_snapshot_def mock_info_def other_info_def)

lemma third_device_macs: "convex_macs [third_device] = [''00:00:00:00:00:01'']"
  by (simp add: convex_macs_def third_device_def truthy_def)

lemma set_items_single: "set_items ev [m] = [m]"
  by (simp add: set_items_def)

lemma two_device_stale:
  "stale_devices ev [MAC, OTHER_MAC] [''00:00:00:00:00:01''] [MAC] = [OTHER_MAC]"
  by (simp add: stale_devices_def set_items_single MAC_def OTHER_MAC_def)

lemma remove_other:
  "remove_device adapter_env OTHER_MAC (Some two_device_snapshot) initial_world =
     (True,
      initial_world\<lparr>adapter_path_cache := Some ''/org/bluez/hci0'', tick := 2,
        trace := [GetManagedObjects, RemoveDevice ''/org/bluez/hci0'' ''/dev/other'']\<rparr>)"
proof -
  have m: "managed_objects adapter_env n = Some [adapter_object]" for n
    by (simp add: adapter_env_def quiet_env_def)
  have r: "remove_reply adapter_env n = True" for n
    by (simp add: adapter_env_def quiet_env_def)
  have l: "map_of two_device_snapshot (upper OTHER_MAC) = Some other_info"
    using upper_known MAC_neq by (simp add: two_device_snapshot_def)
  show ?thesis
    by (simp add: remove_device_def two_device_snapshot_given get_device_path_def l
          other_info_def truthy_def get_managed_objects_def m get_adapter_path_def r
          adapter_object_def advance_def emit_def initial_world_def)
qed

text \<open>
  An instance: of two paired devices unknown to the store, handed in with a snapshot that
  is not empty, the one that is not connected is unpaired and the connected one is left.
\<close>

lemma cleanup_leaves_connected_device:
  "new_events initial_world
     (cleanup_stale_bluetooth_pairings default_config adapter_env (Some [third_device])
        (Some two_device_snapshot) initial_world)
     = [GetManagedObjects, RemoveDevice ''/org/bluez/hci0'' ''/dev/other'']"
proof -
  have d: "devices_or_fetch default_config adapter_env (Some [third_device]) w
             = ([third_device], w)" for w
    by (simp add: devices_or_fetch_def)
  have c: "cleanup_stale_bluetooth_pairings default_config adapter_env (Some [third_device])
             (Some two_device_snapshot) initial_world
           = initial_world\<lparr>adapter_path_cache := Some ''/org/bluez/hci0'', tick := 2,
        trace := [GetManagedObjects, RemoveDevice ''/org/bluez/hci0'' ''/dev/other'']\<rparr>"
    by (simp add: cleanup_stale_bluetooth_pairings_def two_device_inputs d third_device_macs
          two_device_stale remove_other)
  show ?thesis
    by (simp add: c new_events_def) (simp add: initial_world_def)
qed

text \<open>
  With an empty snapshot each helper fetches a snapshot of its own. The link layer fails
  to answer the first and the third fetch and otherwise reports one device, paired and
  connected, which the store does not know.
\<close>

lemma flaky_fetches:
  "managed_objects flaky_env n =
     (if n = 0 \<or> n = 2 then None else Some [adapter_object, connected_object])"
  by (simp add: flaky_env_def quiet_env_def)

lemma connected_snapshot_built:
  "snapshot_of [adapter_object, connected_object] [] = connected_snapshot"
  using upper_MAC
  by (simp add: adapter_object_def connected_object_def normalize_mac_def truthy_def
        device_info_of_def dbus_bool_def connected_snapshot_def mock_info_def)
     (simp add: MAC_def)

lemma flaky_snapshots:
  "fresh_snapshot flaky_env 0 = []"
  "fresh_snapshot flaky_env (Suc 0) = connected_snapshot"
  "fresh_snapshot flaky_env 2 = []"
  "fresh_snapshot flaky_env 3 = connected_snapshot"
  "fresh_snapshot flaky_env 4 = connected_snapshot"
  by (simp_all add: fresh_snapshot_def flaky_fetches connected_snapshot_built
        del: snapshot_of.simps)

lemma flaky_inputs:
  "cleanup_inputs flaky_env (Some []) initial_world =
     (([], [MAC], []),
      initial_world\<lparr>tick := 3,
        trace := [GetManagedObjects, GetManagedObjects, GetManagedObjects]\<rparr>)"
proof -
  have t: "tick initial_world = 0" "trace initial_world = []"
    by (simp_all add: initial_world_def)
  show ?thesis
    by (simp add: cleanup_inputs_def snapshot_or_fetch_def get_device_snapshot_def
          get_paired_devices_def get_all_connected_devices_def Let_def advance_def emit_def t
          flaky_fetches connected_snapshot_built del: snapshot_of.simps)
       (simp add: connected_snapshot_def mock_info_def)
qed

lemma flaky_remove:
  "remove_device flaky_env MAC (Some [])
     (initial_world\<lparr>tick := 3,
        trace := [GetManagedObjects, GetManagedObjects, GetManagedObjects]\<rparr>) =
     (True,
      initial_world\<lparr>tick := 6,
        trace := [GetManagedObjects, GetManagedObjects, GetManagedObjects, GetManagedObjects,
                  GetManagedObjects, RemoveDevice ''/org/bluez/hci0'' ''/dev/mock''],
        adapter_path_cache := Some ''/org/bluez/hci0''\<rparr>)"
proof -
  define w3 where "w3 = initial_world\<lparr>tick := 3,
        trace := [GetManagedObjects, GetManagedObjects, GetManagedObjects]\<rparr>"
  define w4 where "w4 = initial_world\<lparr>tick := 4,
        trace := [GetManagedObjects, GetManagedObjects, GetManagedObjects, GetManagedObjects]\<rparr>"
  define w5 where "w5 = initial_world\<lparr>tick := 5,
        trace := [GetManagedObjects, GetManagedObjects, GetManagedObjects, GetManagedObjects,
                  GetManagedObjects]\<rparr>"
  have s: "snapshot_or_fetch flaky_env (Some []) w3 = (connected_snapshot, w4)"
    by (simp add: snapshot_or_fetch_def get_device_snapshot_fresh flaky_snapshots w3_def w4_def
          advance_def emit_def)
  have ne: "connected_snapshot \<noteq> []"
    by (simp add: connected_snapshot_def)
  have l: "map_of connected_snapshot (upper MAC) = Some (mock_info\<lparr>connected := True\<rparr>)"
    using upper_MAC by (simp add: connected_snapshot_def)
  have p: "get_device_path flaky_env MAC (Some connected_snapshot) w4 = (Some ''/dev/mock'', w4)"
    using ne by (simp add: get_device_path_def snapshot_or_fetch_def l mock_info_def)
  have g: "get_managed_objects flaky_env w4 = (Inr [adapter_object, connected_object], w5)"
    by (simp add: get_managed_objects_def flaky_fetches w4_def w5_def advance_def emit_def)
  have c: "adapter_path_cache w5 = None"
    by (simp add: w5_def initial_world_def)
  have f: "List.find adapter1 [adapter_object, connected_object] = Some adapter_object"
    by (simp add: adapter_object_def)
  have a: "get_adapter_path flaky_env [adapter_object, connected_object] w5
             = (Inr (Some ''/org/bluez/hci0''), w5\<lparr>adapter_path_cache := Some ''/org/bluez/hci0''\<rparr>)"
    by (simp add: get_adapter_path_def c f) (simp add: adapter_object_def)
  have r: "remove_reply flaky_env n = True" for n
    by (simp add: flaky_env_def quiet_env_def)
  have "remove_device flaky_env MAC (Some []) w3 =
     (True, emit (RemoveDevice ''/org/bluez/hci0'' ''/dev/mock'')
              (advance (w5\<lparr>adapter_path_cache := Some ''/org/bluez/hci0''\<rparr>)))"
    by (simp add: remove_device_def s p g a r truthy_def)
  then show ?thesis
    by (simp add: w3_def w5_def advance_def emit_def)
qed

text \<open>
  C5. The cleanup unpairs a connected device. It is handed the store's list (one device,
  another address) and an empty snapshot, as the polling cycle does after its own fetch
  has failed. The fetch of line 326 fails too; \<^verbatim>\<open>get_paired_devices\<close> fetches a snapshot
  that lists the device as paired and connected; the fetch of \<^verbatim>\<open>get_all_connected_devices\<close>
  fails, so the set of connected addresses is empty and the address counts as stale;
  \<^verbatim>\<open>remove_device\<close> fetches a snapshot that lists the device, still connected, and removes
  its pairing. Every snapshot of the run is either empty or shows the device paired and
  connected, so the removal is of a record that is not stale in any of them.
\<close>

theorem C5_cleanup_unpairs_connected_device:
  "new_events initial_world
     (cleanup_stale_bluetooth_pairings default_config flaky_env (Some [third_device])
        (Some []) initial_world)
     = [GetManagedObjects, GetManagedObjects, GetManagedObjects, GetManagedObjects,
        GetManagedObjects, RemoveDevice ''/org/bluez/hci0'' ''/dev/mock'']
   \<and> fresh_snapshot flaky_env 0 = []
   \<and> fresh_snapshot flaky_env 1 = connected_snapshot
   \<and> fresh_snapshot flaky_env 2 = []
   \<and> fresh_snapshot flaky_env 3 = connected_snapshot
   \<and> fresh_snapshot flaky_env 4 = connected_snapshot
   \<and> map_of connected_snapshot MAC = Some (mock_info\<lparr>connected := True\<rparr>)
   \<and> path (mock_info\<lparr>connected := True\<rparr>) = Some ''/dev/mock''
   \<and> paired (mock_info\<lparr>connected := True\<rparr>)
   \<and> connected (mock_info\<lparr>connected := True\<rparr>)
   \<and> \<not> stale_record connected_snapshot (convex_macs [third_device]) ''/dev/mock''
   \<and> \<not> stale_record [] (convex_macs [third_device]) ''/dev/mock''"
proof -
  have d: "devices_or_fetch default_config flaky_env (Some [third_device]) w
             = ([third_device], w)" for w
    by (simp add: devices_or_fetch_def)
  have s: "stale_devices flaky_env [MAC] (convex_macs [third_device]) [] = [MAC]"
  proof -
    have "MAC \<noteq> ''00:00:00:00:00:01''" by (simp add: MAC_def)
    then show ?thesis by (simp add: stale_devices_def third_device_macs set_items_single)
  qed
  have c: "cleanup_stale_bluetooth_pairings default_config flaky_env (Some [third_device])
             (Some []) initial_world
           = initial_world\<lparr>tick := 6,
        trace := [GetManagedObjects, GetManagedObjects, GetManagedObjects, GetManagedObjects,
                  GetManagedObjects, RemoveDevice ''/org/bluez/hci0'' ''/dev/mock''],
        adapter_path_cache := Some ''/org/bluez/hci0''\<rparr>"
    by (simp add: cleanup_stale_bluetooth_pairings_def flaky_inputs d s flaky_remove)
  have e: "new_events initial_world
     (cleanup_stale_bluetooth_pairings default_config flaky_env (Some [third_device])
        (Some []) initial_world)
     = [GetManagedObjects, GetManagedObjects, GetManagedObjects, GetManagedObjects,
        GetManagedObjects, RemoveDevice ''/org/bluez/hci0'' ''/dev/mock'']"
    by (simp add: c new_events_def) (simp add: initial_world_def)
  have f: "fresh_snapshot flaky_env 0 = []"
    "fresh_snapshot flaky_env 1 = connected_snapshot"
    "fresh_snapshot flaky_env 2 = []"
    "fresh_snapshot flaky_env 3 = connected_snapshot"
    "fresh_snapshot flaky_env 4 = connected_snapshot"
    using flaky_snapshots by simp_all
  have g: "map_of connected_snapshot MAC = Some (mock_info\<lparr>connected := True\<rparr>)"
    "path (mock_info\<lparr>connected := True\<rparr>) = Some ''/dev/mock''"
    "paired (mock_info\<lparr>connected := True\<rparr>)"
    "connected (mock_info\<lparr>connected := True\<rparr>)"
    by (simp_all add: connected_snapshot_def mock_info_def)
  have h: "\<not> stale_record connected_snapshot (convex_macs [third_device]) ''/dev/mock''"
    "\<not> stale_record [] (convex_macs [third_device]) ''/dev/mock''"
    by (simp_all add: stale_record_def connected_snapshot_def)
  from e f g h show ?thesis by simp
qed

subsection \<open>An empty list of known devices\<close>

lemma get_known_devices_result:
  "fst (get_known_devices cfg ev w) =
     (if monotonic ev (tick w) < convex_circuit_open_until w then []
      else case devices_reply ev (tick w) of
             Returned (Some ds) \<Rightarrow> ds
           | Returned None \<Rightarrow> []
           | TimedOut \<Rightarrow> []
           | Raised \<Rightarrow> [])"
proof (cases "monotonic ev (tick w) < convex_circuit_open_until w")
  case True
  then show ?thesis by (simp add: get_known_devices_def submit_open)
next
  case False
  then show ?thesis
    by (simp add: get_known_devices_def submit_closed split: outcome.splits option.splits)
qed

lemma cleanup_without_devices:
  assumes "fst (devices_or_fetch cfg ev convex_devices (snd (cleanup_inputs ev snapshot w))) = []"
  shows "emits (\<lambda>e. \<not> is_removal e) w
           (cleanup_stale_bluetooth_pairings cfg ev convex_devices snapshot w)"
proof -
  obtain i w3 where ci: "cleanup_inputs ev snapshot w = (i, w3)"
    using prod.exhaust by blast
  obtain ds w4 where df: "devices_or_fetch cfg ev convex_devices w3 = (ds, w4)" by force
  have "emits (\<lambda>e. \<not> is_removal e) w w3"
    using cleanup_inputs_emits [of w ev snapshot] ci by (auto intro: emits_mono)
  moreover have "emits (\<lambda>e. \<not> is_removal e) w3 w4"
    using devices_or_fetch_emits [of w3 cfg ev convex_devices] df by (auto intro: emits_mono)
  ultimately have "emits (\<lambda>e. \<not> is_removal e) w w4" by (rule emits_trans)
  moreover from assms ci df have "ds = []" by simp
  ultimately show ?thesis
    using ci df by (auto simp: cleanup_stale_bluetooth_pairings_def)
qed

text \<open>
  C10. When the list of known devices the cleanup arrives at (the list handed in or, when
  that is absent or empty, the result of the \<^verbatim>\<open>getDevices\<close> query it then makes) is empty,
  the cleanup issues no \<^verbatim>\<open>RemoveDevice\<close> at all. \<^verbatim>\<open>get_known_devices\<close> always returns a
  list: the empty list when the circuit is open, when the query times out, when it raises
  and when it returns \<open>None\<close>, and the store's list otherwise; and it is what an absent or
  empty list argument is replaced by.
\<close>

theorem C10_empty_known_list_unpairs_nothing:
  assumes "fst (devices_or_fetch cfg ev convex_devices (snd (cleanup_inputs ev snapshot w))) = []"
  shows "list_all (\<lambda>e. \<not> is_removal e)
           (new_events w (cleanup_stale_bluetooth_pairings cfg ev convex_devices snapshot w))
       \<and> fst (get_known_devices cfg ev w') =
           (if monotonic ev (tick w') < convex_circuit_open_until w' then []
            else case devices_reply ev (tick w') of
                   Returned (Some ds) \<Rightarrow> ds
                 | Returned None \<Rightarrow> []
                 | TimedOut \<Rightarrow> []
                 | Raised \<Rightarrow> [])
       \<and> devices_or_fetch cfg ev None w' = get_known_devices cfg ev w'
       \<and> devices_or_fetch cfg ev (Some []) w' = get_known_devices cfg ev w'"
  using emits_new_events [OF cleanup_without_devices [OF assms]]
  by (simp add: get_known_devices_result devices_or_fetch_def)

theorem C10_witness:
  "fst (devices_or_fetch default_config quiet_env (Some [])
          (snd (cleanup_inputs quiet_env (Some two_device_snapshot) initial_world))) = []
   \<and> new_events initial_world
        (cleanup_stale_bluetooth_pairings default_config quiet_env (Some [])
           (Some two_device_snapshot) initial_world)
       = [Submit GetDevices]
   \<and> list_all (\<lambda>e. \<not> is_removal e) [Submit GetDevices]"
proof -
  have g: "get_known_devices default_config quiet_env initial_world
             = ([], initial_world\<lparr>tick := 1, trace := [Submit GetDevices]\<rparr>)"
  proof -
    have "\<not> monotonic quiet_env (tick initial_world) < convex_circuit_open_until initial_world"
      by (simp add: quiet_env_def initial_world_def)
    moreover have "devices_reply quiet_env n = Raised" for n
      by (simp add: quiet_env_def)
    ultimately show ?thesis
      by (simp add: get_known_devices_def submit_closed)
         (simp add: initial_world_def advance_def emit_def)
  qed
  have a: "fst (devices_or_fetch default_config quiet_env (Some [])
          (snd (cleanup_inputs quiet_env (Some two_device_snapshot) initial_world))) = []"
    by (simp add: two_device_inputs devices_or_fetch_def g)
  have e: "new_events initial_world
        (cleanup_stale_bluetooth_pairings default_config quiet_env (Some [])
           (Some two_device_snapshot) initial_world)
       = [Submit GetDevices]"
    by (simp add: cleanup_stale_bluetooth_pairings_def two_device_inputs devices_or_fetch_def g
          new_events_def)
       (simp add: initial_world_def)
  from C10_empty_known_list_unpairs_nothing [OF a, of initial_world] a e
  show ?thesis by simp
qed

subsection \<open>The probe scheduler\<close>

lemma update_fresh_key: "k \<notin> fst ` set al \<Longrightarrow> AList.update k v al = al @ [(k, v)]"
  by (induction al) auto

lemma probe_single_device_key:
  "fst (fst (probe_single_device cfg ev m da snapshot w)) = m"
  by (simp add: probe_single_device_def Let_def split: prod.splits sum.splits)

text \<open>The attempted addresses are a subsequence of the ordered candidates.\<close>

lemma probe_loop_keys:
  assumes "distinct ms" and "set ms \<inter> fst ` set acc = {}"
  shows "\<exists>sub. subseq sub ms
           \<and> map fst (fst (probe_loop cfg ev da snapshot budget start ms acc w)) = map fst acc @ sub"
  using assms
proof (induction ms arbitrary: acc w)
  case Nil
  then show ?case by simp
next
  case (Cons m ms)
  define w1 where "w1 = (case budget of None \<Rightarrow> w | Some b \<Rightarrow> advance w)"
  define over where
    "over = (case budget of None \<Rightarrow> False | Some b \<Rightarrow> monotonic ev (tick w) - start \<ge> b)"
  show ?case
  proof (cases over)
    case True
    then have eq: "probe_loop cfg ev da snapshot budget start (m # ms) acc w = (acc, w1)"
      by (simp add: over_def w1_def Let_def)
    show ?thesis unfolding eq by (intro exI [of _ "[]"]) simp
  next
    case False
    obtain ok w2 where c: "can_attempt_reconnection ev m w1 = (ok, w2)" by force
    from Cons.prems have d: "distinct ms" and n: "m \<notin> set ms" and k: "m \<notin> fst ` set acc"
      and i: "set ms \<inter> fst ` set acc = {}"
      by auto
    show ?thesis
    proof (cases ok)
      case False
      from Cons.IH [OF d i, of w2] obtain sub where
        s: "subseq sub ms"
        "map fst (fst (probe_loop cfg ev da snapshot budget start ms acc w2)) = map fst acc @ sub"
        by blast
      have eq: "probe_loop cfg ev da snapshot budget start (m # ms) acc w
              = probe_loop cfg ev da snapshot budget start ms acc w2"
        using \<open>\<not> over\<close> c False by (simp add: over_def w1_def Let_def)
      show ?thesis unfolding eq using s by (intro exI [of _ sub]) (simp add: list_emb_Cons)
    next
      case True
      obtain r w3 where p: "probe_single_device cfg ev m da snapshot w2 = (r, w3)"
        using prod.exhaust by blast
      obtain mac success where r: "r = (mac, success)" by force
      from p r probe_single_device_key [of cfg ev m da snapshot w2] have "mac = m" by simp
      have u: "AList.update m success acc = acc @ [(m, success)]"
        using k by (rule update_fresh_key)
      from n i have "set ms \<inter> fst ` set (acc @ [(m, success)]) = {}" by auto
      from Cons.IH [OF d this, of w3] obtain sub where
        s: "subseq sub ms"
        "map fst (fst (probe_loop cfg ev da snapshot budget start ms (acc @ [(m, success)]) w3))
           = map fst (acc @ [(m, success)]) @ sub"
        by blast
      have eq: "probe_loop cfg ev da snapshot budget start (m # ms) acc w
              = probe_loop cfg ev da snapshot budget start ms (acc @ [(m, success)]) w3"
        using \<open>\<not> over\<close> c True p r \<open>mac = m\<close> u by (simp add: over_def w1_def Let_def)
      show ?thesis unfolding eq using s by (intro exI [of _ "m # sub"]) simp
    qed
  qed
qed

text \<open>Every listing of a set is the iteration order under some oracle.\<close>

lemma position_inj: "inj_on (position ys) (set ys)"
proof (rule inj_onI)
  fix x y
  assume "x \<in> set ys" "y \<in> set ys" "position ys x = position ys y"
  then show "x = y"
    by (induction ys) (auto split: if_splits)
qed

lemma position_sorted: "distinct ys \<Longrightarrow> sorted (map (position ys) ys)"
proof (induction ys)
  case Nil
  then show ?case by simp
next
  case (Cons y ys)
  then have eq: "map (position (y # ys)) (y # ys) = 0 # map (\<lambda>x. Suc (position ys x)) ys"
    by auto
  have "sorted (map (\<lambda>x. Suc (position ys x)) ys)"
    using Cons by (simp add: sorted_wrt_map sorted_map)
  then have "sorted (0 # map (\<lambda>x. Suc (position ys x)) ys)" by simp
  then show ?case unfolding eq .
qed

lemma set_items_any_order:
  assumes "distinct ys" and "set ys = set xs"
  shows "set_items (ev\<lparr>hash_order := position ys\<rparr>) xs = ys"
proof -
  have "mset (remdups xs) = mset ys"
    using assms by (simp add: set_eq_iff_mset_eq_distinct [symmetric])
  moreover have "inj_on (position ys) (set (remdups xs))"
    using assms position_inj [of ys] by simp
  moreover have "sorted (map (position ys) ys)"
    using assms(1) by (rule position_sorted)
  ultimately have "sort_key (position ys) (remdups xs) = ys"
    by (rule sort_key_inj_key_eq)
  then show ?thesis by (simp add: set_items_def)
qed

lemma candidate_set_distinct: "distinct (candidate_set ms cs)"
  by (simp add: candidate_set_def Let_def split: option.splits)

lemma candidate_set_set: "set (candidate_set ms cs) = probe_candidates ms cs"
  by (auto simp: candidate_set_def probe_candidates_def Let_def split: option.splits)

lemma pick_set_subset: "set (pick_reconnect_candidates ev w cands n) \<subseteq> set cands"
  by (auto simp: pick_reconnect_candidates_def dest: in_set_takeD)

lemma pick_distinct: "distinct (pick_reconnect_candidates ev w cands n)"
  by (simp add: pick_reconnect_candidates_def)

lemma pick_length: "0 < n \<Longrightarrow> length (pick_reconnect_candidates ev w cands n) \<le> nat n"
  by (simp add: pick_reconnect_candidates_def)

lemma pick_sorted:
  "0 < n \<Longrightarrow> sorted (map (last_attempt w) (pick_reconnect_candidates ev w cands n))"
  by (simp add: pick_reconnect_candidates_def take_map [symmetric] sorted_wrt_take)

lemma pick_no_cap: "n \<le> 0 \<Longrightarrow> set (pick_reconnect_candidates ev w cands n) = set cands"
  by (simp add: pick_reconnect_candidates_def)

text \<open>In a list sorted by a key, what has a smaller key than an element stands before it.\<close>

lemma older_in_prefix:
  assumes "sorted (map f ys)" and "i < length ys"
  shows "{b \<in> set ys. f b < f (ys ! i)} \<subseteq> set (take i ys)"
proof
  fix b
  assume "b \<in> {b \<in> set ys. f b < f (ys ! i)}"
  then obtain j where j: "j < length ys" "ys ! j = b" and lt: "f b < f (ys ! i)"
    by (auto simp: in_set_conv_nth)
  have "j < i"
  proof (rule ccontr)
    assume "\<not> j < i"
    then have "i \<le> j" by simp
    with assms(1) j(1) have "map f ys ! i \<le> map f ys ! j"
      by (intro sorted_nth_mono) simp_all
    with assms(2) j lt show False by simp
  qed
  with j have "take i ys ! j = b" "j < length (take i ys)" by simp_all
  then show "b \<in> set (take i ys)" by (metis nth_mem)
qed

text \<open>
  With a positive maximum every picked address is among the oldest: fewer candidates
  than the maximum have a last attempt strictly before its own.
\<close>

lemma pick_oldest_first:
  assumes "0 < n" and "a \<in> set (pick_reconnect_candidates ev w cands n)"
  shows "card {b \<in> set cands. last_attempt w b < last_attempt w a} < nat n"
proof -
  let ?ys = "sort_key (last_attempt w) (set_items ev cands)"
  from assms have "a \<in> set (take (nat n) ?ys)"
    by (simp add: pick_reconnect_candidates_def)
  then obtain i where i: "i < length (take (nat n) ?ys)" "take (nat n) ?ys ! i = a"
    by (auto simp: in_set_conv_nth)
  then have b: "i < nat n" "i < length ?ys" and a: "?ys ! i = a" by simp_all
  have "sorted (map (last_attempt w) ?ys)" by simp
  from older_in_prefix [OF this b(2)] a
  have "{b \<in> set cands. last_attempt w b < last_attempt w a} \<subseteq> set (take i ?ys)"
    by simp
  then have "card {b \<in> set cands. last_attempt w b < last_attempt w a}
               \<le> card (set (take i ?ys))"
    by (intro card_mono) simp_all
  also have "\<dots> \<le> length (take i ?ys)" by (rule card_length)
  also have "\<dots> \<le> i" by simp
  finally show ?thesis using b(1) by simp
qed

lemma probe_devices_keys:
  "subseq (attempted cfg ev ms da cs snapshot budget w)
     (pick_reconnect_candidates ev w (candidate_set ms cs)
        (if MAX_RECONNECT_PER_CYCLE cfg > 0 then MAX_RECONNECT_PER_CYCLE cfg else 0))"
proof -
  let ?p = "pick_reconnect_candidates ev w (candidate_set ms cs)
        (if MAX_RECONNECT_PER_CYCLE cfg > 0 then MAX_RECONNECT_PER_CYCLE cfg else 0)"
  have "distinct ?p" by (rule pick_distinct)
  then obtain sub where "subseq sub ?p"
    "map fst (fst (probe_loop cfg ev da snapshot budget (monotonic ev (tick w)) ?p []
                     (advance w))) = sub"
    using probe_loop_keys [of ?p "[]" cfg ev da snapshot budget "monotonic ev (tick w)" "advance w"]
    by auto
  then show ?thesis
    by (auto simp: attempted_def probe_devices_def Let_def)
qed

lemma subseq_set_subset: "subseq xs ys \<Longrightarrow> set xs \<subseteq> set ys"
  by (induction rule: list_emb.induct) auto

lemma subseq_sorted: "subseq xs ys \<Longrightarrow> sorted ys \<Longrightarrow> sorted xs"
proof (induction rule: list_emb.induct)
  case (list_emb_Nil ys)
  then show ?case by simp
next
  case (list_emb_Cons xs ys y)
  then show ?case by simp
next
  case (list_emb_Cons2 x y xs ys)
  then have "set xs \<subseteq> set ys" by (intro subseq_set_subset)
  with list_emb_Cons2 show ?case by auto
qed

lemma subseq_distinct: "subseq xs ys \<Longrightarrow> distinct ys \<Longrightarrow> distinct xs"
proof (induction rule: list_emb.induct)
  case (list_emb_Nil ys)
  then show ?case by simp
next
  case (list_emb_Cons xs ys y)
  then show ?case by simp
next
  case (list_emb_Cons2 x y xs ys)
  then have "set xs \<subseteq> set ys" by (intro subseq_set_subset)
  with list_emb_Cons2 show ?case by auto
qed

lemma probe_devices_selection:
  fixes cfg ev ms da cs snapshot budget w
  defines "keys \<equiv> attempted cfg ev ms da cs snapshot budget w"
    and "cap \<equiv> (if MAX_RECONNECT_PER_CYCLE cfg > 0 then MAX_RECONNECT_PER_CYCLE cfg else 0)"
  shows "distinct keys"
    and "set keys \<subseteq> probe_candidates ms cs"
    and "0 < MAX_RECONNECT_PER_CYCLE cfg \<Longrightarrow> length keys \<le> nat (MAX_RECONNECT_PER_CYCLE cfg)"
    and "0 < MAX_RECONNECT_PER_CYCLE cfg \<Longrightarrow> sorted (map (last_attempt w) keys)"
    and "0 < MAX_RECONNECT_PER_CYCLE cfg \<Longrightarrow> a \<in> set keys \<Longrightarrow>
           card {b \<in> probe_candidates ms cs. last_attempt w b < last_attempt w a}
             < nat (MAX_RECONNECT_PER_CYCLE cfg)"
proof -
  let ?p = "pick_reconnect_candidates ev w (candidate_set ms cs) cap"
  have s: "subseq keys ?p"
    unfolding keys_def cap_def by (rule probe_devices_keys)
  have d: "distinct ?p" by (rule pick_distinct)
  from s d show "distinct keys" by (rule subseq_distinct)
  have sub: "set keys \<subseteq> set ?p" using s by (rule subseq_set_subset)
  with pick_set_subset [of ev w "candidate_set ms cs" cap]
  show "set keys \<subseteq> probe_candidates ms cs"
    by (auto simp: candidate_set_set)
  show "length keys \<le> nat (MAX_RECONNECT_PER_CYCLE cfg)" if "0 < MAX_RECONNECT_PER_CYCLE cfg"
  proof -
    from that have "length ?p \<le> nat (MAX_RECONNECT_PER_CYCLE cfg)"
      using pick_length [of cap ev w "candidate_set ms cs"] by (simp add: cap_def)
    with list_emb_length [OF s] show ?thesis by simp
  qed
  show "sorted (map (last_attempt w) keys)" if "0 < MAX_RECONNECT_PER_CYCLE cfg"
  proof -
    from that have "sorted (map (last_attempt w) ?p)"
      using pick_sorted [of cap w ev "candidate_set ms cs"] by (simp add: cap_def)
    with subseq_map [OF s, of "last_attempt w"] show ?thesis by (rule subseq_sorted)
  qed
  show "card {b \<in> probe_candidates ms cs. last_attempt w b < last_attempt w a}
          < nat (MAX_RECONNECT_PER_CYCLE cfg)"
    if "0 < MAX_RECONNECT_PER_CYCLE cfg" "a \<in> set keys"
  proof -
    from that sub have "a \<in> set ?p" by blast
    with that(1) show ?thesis
      using pick_oldest_first [of cap a ev w "candidate_set ms cs"]
      by (simp add: cap_def candidate_set_set)
  qed
qed

text \<open>
  C8 (as amended). The addresses \<^verbatim>\<open>probe_devices\<close> attempts (the keys of its result, in
  the order of the attempts) are attempted at most once each and are candidates: upper-cased
  addresses of the list handed in that are not the upper-cased form of an already-connected
  address. So no already-connected address is attempted, however the caller spells it.
  When the configured per-cycle maximum is positive: at most that many addresses are
  attempted; they are attempted in the order of their last-attempt time, oldest first,
  where an address never attempted counts as time zero; and each of them is among the
  oldest, that is, fewer candidates than the maximum have a last attempt strictly before
  its own. When the configured maximum is zero or negative there is no cap: every
  candidate is picked for the cycle.
\<close>

theorem C8_probe_selection:
  "distinct (attempted cfg ev mac_addresses disconnect_after connected_macs snapshot
               time_budget_seconds w)
   \<and> set (attempted cfg ev mac_addresses disconnect_after connected_macs snapshot
             time_budget_seconds w)
       \<subseteq> probe_candidates mac_addresses connected_macs
   \<and> (\<forall>conn c. connected_macs = Some conn \<longrightarrow> c \<in> set conn \<longrightarrow>
         upper c \<notin> set (attempted cfg ev mac_addresses disconnect_after connected_macs
                           snapshot time_budget_seconds w))
   \<and> (0 < MAX_RECONNECT_PER_CYCLE cfg \<longrightarrow>
        length (attempted cfg ev mac_addresses disconnect_after connected_macs snapshot
                  time_budget_seconds w)
          \<le> nat (MAX_RECONNECT_PER_CYCLE cfg)
        \<and> sorted (map (last_attempt w)
             (attempted cfg ev mac_addresses disconnect_after connected_macs snapshot
                time_budget_seconds w))
        \<and> (\<forall>a \<in> set (attempted cfg ev mac_addresses disconnect_after connected_macs
                          snapshot time_budget_seconds w).
              card {b \<in> probe_candidates mac_addresses connected_macs.
                      last_attempt w b < last_attempt w a}
                < nat (MAX_RECONNECT_PER_CYCLE cfg)))
   \<and> (\<forall>m. last_connection_attempts w m = None \<longrightarrow> last_attempt w m = 0)
   \<and> (MAX_RECONNECT_PER_CYCLE cfg \<le> 0 \<longrightarrow>
        set (pick_reconnect_candidates ev w (candidate_set mac_addresses connected_macs)
               (if MAX_RECONNECT_PER_CYCLE cfg > 0 then MAX_RECONNECT_PER_CYCLE cfg else 0))
          = probe_candidates mac_addresses connected_macs)"
proof -
  let ?keys = "attempted cfg ev mac_addresses disconnect_after connected_macs snapshot
                 time_budget_seconds w"
  note sel = probe_devices_selection [where cfg = cfg and ev = ev and ms = mac_addresses
          and da = disconnect_after and cs = connected_macs and snapshot = snapshot
          and budget = time_budget_seconds and w = w]
  have a: "distinct ?keys" by (rule sel(1))
  have b: "set ?keys \<subseteq> probe_candidates mac_addresses connected_macs" by (rule sel(2))
  have c: "upper c \<notin> set ?keys" if "connected_macs = Some conn" "c \<in> set conn" for conn c
    using b that by (auto simp: probe_candidates_def)
  have d: "length ?keys \<le> nat (MAX_RECONNECT_PER_CYCLE cfg)
        \<and> sorted (map (last_attempt w) ?keys)
        \<and> (\<forall>a \<in> set ?keys.
              card {b \<in> probe_candidates mac_addresses connected_macs.
                      last_attempt w b < last_attempt w a}
                < nat (MAX_RECONNECT_PER_CYCLE cfg))"
    if "0 < MAX_RECONNECT_PER_CYCLE cfg"
    using sel(3) [OF that] sel(4) [OF that] sel(5) [OF that] by blast
  have e: "last_attempt w m = 0" if "last_connection_attempts w m = None" for m
    using that by (simp add: last_attempt_def)
  have f: "set (pick_reconnect_candidates ev w (candidate_set mac_addresses connected_macs)
               (if MAX_RECONNECT_PER_CYCLE cfg > 0 then MAX_RECONNECT_PER_CYCLE cfg else 0))
          = probe_candidates mac_addresses connected_macs"
    if "MAX_RECONNECT_PER_CYCLE cfg \<le> 0"
    using that by (simp add: pick_no_cap candidate_set_set)
  from a b c d e f show ?thesis by blast
qed

lemma connect_device_unknown:
  assumes "s \<noteq> []" and "map_of s (upper m) = None"
  shows "connect_device cfg ev m (Some s) w = (Inr False, w)"
  using assms
  by (simp add: connect_device_def snapshot_or_fetch_def is_device_trusted_def trust_device_def
        get_device_path_def truthy_def)

lemma scenario_addresses:
  "upper OTHER_MAC = OTHER_MAC" "upper THIRD_MAC = THIRD_MAC" "upper FOURTH_MAC = FOURTH_MAC"
  "upper lower_case_MAC = MAC" "upper MAC = MAC"
  "distinct [MAC, OTHER_MAC, THIRD_MAC, FOURTH_MAC]"
  unfolding THIRD_MAC_def MAC_def OTHER_MAC_def FOURTH_MAC_def lower_case_MAC_def
  by code_simp+

lemma unknown_macs:
  "upper THIRD_MAC = THIRD_MAC" "THIRD_MAC \<noteq> MAC" "THIRD_MAC \<noteq> OTHER_MAC"
  "OTHER_MAC \<noteq> THIRD_MAC"
  using scenario_addresses by auto

lemma unknown_to_snapshot:
  assumes "m \<in> {OTHER_MAC, THIRD_MAC, FOURTH_MAC}"
  shows "map_of mock_snapshot (upper m) = None"
  using assms scenario_addresses by (auto simp: mock_snapshot_def)

lemma probe_unknown:
  assumes "map_of mock_snapshot (upper m) = None"
  shows "probe_single_device cfg wall_1000_env m True (Some mock_snapshot) w =
           ((m, False),
            w\<lparr>tick := Suc (tick w),
              last_connection_attempts := (last_connection_attempts w)(m \<mapsto> 1000)\<rparr>)"
proof -
  have "mock_snapshot \<noteq> []" by (simp add: mock_snapshot_def)
  from this assms have
    "connect_device cfg wall_1000_env m (Some mock_snapshot) w' = (Inr False, w')" for w'
    by (rule connect_device_unknown)
  then show ?thesis
    by (simp add: probe_single_device_def record_connection_attempt_def advance_def
          wall_1000_env_def quiet_env_def)
qed

lemma may_attempt:
  assumes "last_attempt w m \<le> 500" and "next_probe_allowed_at w m = None"
  shows "can_attempt_reconnection wall_1000_env m w = (True, w\<lparr>tick := Suc (Suc (tick w))\<rparr>)"
  using assms
  by (simp add: can_attempt_reconnection_def Let_def advance_def wall_1000_env_def quiet_env_def
        RECONNECT_COOLDOWN_def)

text \<open>
  At wall-clock time 1000, with no time budget, addresses that the snapshot does not list,
  that are out of cooldown and have no backoff are all attempted, in the order given.
\<close>

lemma probe_loop_all_attempted:
  assumes "distinct ms" and "set ms \<inter> fst ` set acc = {}"
    and "\<And>m. m \<in> set ms \<Longrightarrow> map_of mock_snapshot (upper m) = None"
    and "\<And>m. m \<in> set ms \<Longrightarrow> last_attempt w m \<le> 500"
    and "\<And>m. m \<in> set ms \<Longrightarrow> next_probe_allowed_at w m = None"
  shows "map fst (fst (probe_loop cfg wall_1000_env True (Some mock_snapshot) None start ms acc w))
           = map fst acc @ ms"
  using assms
proof (induction ms arbitrary: acc w)
  case Nil
  then show ?case by simp
next
  case (Cons m ms)
  define w2 where "w2 = w\<lparr>tick := Suc (Suc (tick w))\<rparr>"
  define w3 where "w3 = w2\<lparr>tick := Suc (tick w2),
              last_connection_attempts := (last_connection_attempts w2)(m \<mapsto> 1000)\<rparr>"
  have c: "can_attempt_reconnection wall_1000_env m w = (True, w2)"
    unfolding w2_def using Cons.prems(4) [of m] Cons.prems(5) [of m]
    by (intro may_attempt) simp_all
  have p: "probe_single_device cfg wall_1000_env m True (Some mock_snapshot) w2 = ((m, False), w3)"
    unfolding w3_def using Cons.prems(3) [of m] by (intro probe_unknown) simp
  have u: "AList.update m False acc = acc @ [(m, False)]"
    using Cons.prems(2) by (intro update_fresh_key) auto
  have eq: "probe_loop cfg wall_1000_env True (Some mock_snapshot) None start (m # ms) acc w
          = probe_loop cfg wall_1000_env True (Some mock_snapshot) None start ms
              (acc @ [(m, False)]) w3"
    by (simp add: c p u Let_def)
  have "map fst (fst (probe_loop cfg wall_1000_env True (Some mock_snapshot) None start ms
                        (acc @ [(m, False)]) w3))
          = map fst (acc @ [(m, False)]) @ ms"
  proof (rule Cons.IH)
    show "distinct ms" using Cons.prems(1) by simp
    show "set ms \<inter> fst ` set (acc @ [(m, False)]) = {}"
      using Cons.prems(1,2) by auto
    fix m'
    assume m': "m' \<in> set ms"
    with Cons.prems(1) have ne: "m' \<noteq> m" by auto
    show "map_of mock_snapshot (upper m') = None"
      using m' by (intro Cons.prems(3)) simp
    have "last_attempt w3 m' = last_attempt w m'"
      using ne by (simp add: w3_def w2_def last_attempt_def)
    with Cons.prems(4) [of m'] m' show "last_attempt w3 m' \<le> 500" by simp
    have "next_probe_allowed_at w3 m' = next_probe_allowed_at w m'"
      by (simp add: w3_def w2_def)
    with Cons.prems(5) [of m'] m' show "next_probe_allowed_at w3 m' = None" by simp
  qed
  then show ?case unfolding eq by simp
qed

lemma plain_order: "distinct xs \<Longrightarrow> set_items wall_1000_env xs = xs"
  by (simp add: set_items_def wall_1000_env_def quiet_env_def sort_key_const)

lemma two_probed_attempts:
  "last_attempt two_probed_world OTHER_MAC = 500"
  "last_attempt two_probed_world THIRD_MAC = 0"
  "last_attempt two_probed_world FOURTH_MAC = 300"
  "last_connection_attempts two_probed_world THIRD_MAC = None"
  using scenario_addresses
  by (auto simp: last_attempt_def two_probed_world_def initial_world_def)

lemma probed_before_attempts:
  "last_attempt probed_before_world OTHER_MAC = 500"
  "last_attempt probed_before_world THIRD_MAC = 0"
  using unknown_macs by (simp_all add: last_attempt_def probed_before_world_def initial_world_def)

lemma three_candidates:
  "candidate_set [OTHER_MAC, lower_case_MAC, THIRD_MAC, FOURTH_MAC] (Some [lower_case_MAC])
     = [OTHER_MAC, THIRD_MAC, FOURTH_MAC]"
  using scenario_addresses by (auto simp: candidate_set_def)

lemma two_candidates:
  "candidate_set [OTHER_MAC, THIRD_MAC] (Some [MAC]) = [OTHER_MAC, THIRD_MAC]"
  using scenario_addresses by (auto simp: candidate_set_def)

lemma two_of_three_picked:
  "pick_reconnect_candidates wall_1000_env two_probed_world
     [OTHER_MAC, THIRD_MAC, FOURTH_MAC] 2 = [THIRD_MAC, FOURTH_MAC]"
proof -
  have "distinct [OTHER_MAC, THIRD_MAC, FOURTH_MAC]"
    using scenario_addresses by auto
  then have "set_items wall_1000_env [OTHER_MAC, THIRD_MAC, FOURTH_MAC]
               = [OTHER_MAC, THIRD_MAC, FOURTH_MAC]"
    by (rule plain_order)
  then show ?thesis
    by (simp add: pick_reconnect_candidates_def two_probed_attempts)
qed

lemma two_of_three_attempted:
  "attempted cap_two_config wall_1000_env [OTHER_MAC, lower_case_MAC, THIRD_MAC, FOURTH_MAC]
     True (Some [lower_case_MAC]) (Some mock_snapshot) None two_probed_world
     = [THIRD_MAC, FOURTH_MAC]"
proof -
  define w1 where "w1 = advance two_probed_world"
  have m: "MAX_RECONNECT_PER_CYCLE cap_two_config = 2"
    by (simp add: cap_two_config_def)
  have l: "last_attempt w1 = last_attempt two_probed_world"
    by (rule ext) (simp add: w1_def advance_def last_attempt_def)
  have "map fst (fst (probe_loop cap_two_config wall_1000_env True (Some mock_snapshot) None
                        start [THIRD_MAC, FOURTH_MAC] [] w1))
          = map fst ([] :: (string \<times> bool) list) @ [THIRD_MAC, FOURTH_MAC]" for start
  proof (rule probe_loop_all_attempted)
    show "distinct [THIRD_MAC, FOURTH_MAC]" using scenario_addresses by auto
    show "set [THIRD_MAC, FOURTH_MAC] \<inter> fst ` set ([] :: (string \<times> bool) list) = {}"
      by simp
    fix m
    assume a: "m \<in> set [THIRD_MAC, FOURTH_MAC]"
    then show "map_of mock_snapshot (upper m) = None"
      by (intro unknown_to_snapshot) auto
    from a show "last_attempt w1 m \<le> 500"
      by (auto simp: l two_probed_attempts)
    show "next_probe_allowed_at w1 m = None"
      by (simp add: w1_def advance_def two_probed_world_def initial_world_def)
  qed
  then show ?thesis
    by (simp add: attempted_def probe_devices_def three_candidates m two_of_three_picked
          Let_def w1_def [symmetric] del: probe_loop.simps)
qed

text \<open>
  An instance. Four addresses are handed in, one of them in lower case and also named, in
  lower case, as connected; of the three candidates one was never attempted, one was last
  attempted at time 300 and one at time 500; the maximum is two. The never-attempted
  address and the one of time 300 are attempted, in this order. With a maximum of zero,
  all candidates are picked.
\<close>

theorem C8_witness:
  "0 < MAX_RECONNECT_PER_CYCLE cap_two_config
   \<and> attempted cap_two_config wall_1000_env
        [OTHER_MAC, lower_case_MAC, THIRD_MAC, FOURTH_MAC] True (Some [lower_case_MAC])
        (Some mock_snapshot) None two_probed_world
       = [THIRD_MAC, FOURTH_MAC]
   \<and> probe_candidates [OTHER_MAC, lower_case_MAC, THIRD_MAC, FOURTH_MAC]
        (Some [lower_case_MAC])
       = {OTHER_MAC, THIRD_MAC, FOURTH_MAC}
   \<and> lower_case_MAC \<in> set [lower_case_MAC]
   \<and> upper lower_case_MAC \<notin> set [THIRD_MAC, FOURTH_MAC]
   \<and> length [THIRD_MAC, FOURTH_MAC] \<le> nat (MAX_RECONNECT_PER_CYCLE cap_two_config)
   \<and> sorted (map (last_attempt two_probed_world) [THIRD_MAC, FOURTH_MAC])
   \<and> card {b \<in> {OTHER_MAC, THIRD_MAC, FOURTH_MAC}.
              last_attempt two_probed_world b < last_attempt two_probed_world THIRD_MAC}
         < nat (MAX_RECONNECT_PER_CYCLE cap_two_config)
   \<and> card {b \<in> {OTHER_MAC, THIRD_MAC, FOURTH_MAC}.
              last_attempt two_probed_world b < last_attempt two_probed_world FOURTH_MAC}
         < nat (MAX_RECONNECT_PER_CYCLE cap_two_config)
   \<and> last_connection_attempts two_probed_world THIRD_MAC = None
   \<and> last_attempt two_probed_world THIRD_MAC = 0
   \<and> MAX_RECONNECT_PER_CYCLE no_cap_config \<le> 0
   \<and> set (pick_reconnect_candidates wall_1000_env probed_before_world
             (candidate_set [OTHER_MAC, THIRD_MAC] (Some [MAC]))
             (if MAX_RECONNECT_PER_CYCLE no_cap_config > 0
              then MAX_RECONNECT_PER_CYCLE no_cap_config else 0))
       = probe_candidates [OTHER_MAC, THIRD_MAC] (Some [MAC])"
proof -
  let ?ms = "[OTHER_MAC, lower_case_MAC, THIRD_MAC, FOURTH_MAC]"
  let ?keys = "attempted cap_two_config wall_1000_env ?ms True (Some [lower_case_MAC])
                 (Some mock_snapshot) None two_probed_world"
  have m: "0 < MAX_RECONNECT_PER_CYCLE cap_two_config"
    by (simp add: cap_two_config_def)
  have n: "MAX_RECONNECT_PER_CYCLE no_cap_config \<le> 0"
    by (simp add: no_cap_config_def)
  have e: "?keys = [THIRD_MAC, FOURTH_MAC]"
    by (rule two_of_three_attempted)
  have pc: "probe_candidates ?ms (Some [lower_case_MAC]) = {OTHER_MAC, THIRD_MAC, FOURTH_MAC}"
    using scenario_addresses by (auto simp: probe_candidates_def)
  have i: "lower_case_MAC \<in> set [lower_case_MAC]" by simp
  have l: "last_connection_attempts two_probed_world THIRD_MAC = None"
    by (rule two_probed_attempts)
  note capped = C8_probe_selection [where cfg = cap_two_config and ev = wall_1000_env
      and mac_addresses = ?ms and disconnect_after = True
      and connected_macs = "Some [lower_case_MAC]" and snapshot = "Some mock_snapshot"
      and time_budget_seconds = None and w = two_probed_world]
  note rest = capped [THEN conjunct2, THEN conjunct2]
  have a: "upper lower_case_MAC \<notin> set [THIRD_MAC, FOURTH_MAC]"
    using rest [THEN conjunct1, rule_format, OF refl i] unfolding e .
  note cap = rest [THEN conjunct2, THEN conjunct1, rule_format, OF m]
  have b: "length [THIRD_MAC, FOURTH_MAC] \<le> nat (MAX_RECONNECT_PER_CYCLE cap_two_config)"
    using cap [THEN conjunct1] unfolding e .
  have c: "sorted (map (last_attempt two_probed_world) [THIRD_MAC, FOURTH_MAC])"
    using cap [THEN conjunct2, THEN conjunct1] unfolding e .
  have d: "\<forall>a \<in> set [THIRD_MAC, FOURTH_MAC].
        card {b \<in> {OTHER_MAC, THIRD_MAC, FOURTH_MAC}.
                last_attempt two_probed_world b < last_attempt two_probed_world a}
          < nat (MAX_RECONNECT_PER_CYCLE cap_two_config)"
    using cap [THEN conjunct2, THEN conjunct2] unfolding e pc .
  have d1: "card {b \<in> {OTHER_MAC, THIRD_MAC, FOURTH_MAC}.
              last_attempt two_probed_world b < last_attempt two_probed_world THIRD_MAC}
         < nat (MAX_RECONNECT_PER_CYCLE cap_two_config)"
    by (rule bspec [OF d]) simp
  have d2: "card {b \<in> {OTHER_MAC, THIRD_MAC, FOURTH_MAC}.
              last_attempt two_probed_world b < last_attempt two_probed_world FOURTH_MAC}
         < nat (MAX_RECONNECT_PER_CYCLE cap_two_config)"
    by (rule bspec [OF d]) simp
  have f: "last_attempt two_probed_world THIRD_MAC = 0"
    using rest [THEN conjunct2, THEN conjunct2, THEN conjunct1, rule_format, OF l] .
  note open_cap = C8_probe_selection [where cfg = no_cap_config and ev = wall_1000_env
      and mac_addresses = "[OTHER_MAC, THIRD_MAC]" and connected_macs = "Some [MAC]"
      and w = probed_before_world]
  have g: "set (pick_reconnect_candidates wall_1000_env probed_before_world
             (candidate_set [OTHER_MAC, THIRD_MAC] (Some [MAC]))
             (if MAX_RECONNECT_PER_CYCLE no_cap_config > 0
              then MAX_RECONNECT_PER_CYCLE no_cap_config else 0))
       = probe_candidates [OTHER_MAC, THIRD_MAC] (Some [MAC])"
    using open_cap [THEN conjunct2, THEN conjunct2, THEN conjunct2, THEN conjunct2,
            THEN conjunct2, rule_format, OF n] .
  show ?thesis
    by (intro conjI) (rule m e pc i a b c d1 d2 l f n g)+
qed

text \<open>
  The claim as stated fails: with the per-cycle maximum configured as zero, both
  candidates are attempted.
\<close>

theorem C8_counterexample:
  "MAX_RECONNECT_PER_CYCLE no_cap_config = 0
   \<and> set (attempted no_cap_config wall_1000_env [OTHER_MAC, THIRD_MAC] True (Some [MAC])
             (Some mock_snapshot) None probed_before_world)
       = {OTHER_MAC, THIRD_MAC}
   \<and> length (attempted no_cap_config wall_1000_env [OTHER_MAC, THIRD_MAC] True (Some [MAC])
                (Some mock_snapshot) None probed_before_world) = 2
   \<and> \<not> length (attempted no_cap_config wall_1000_env [OTHER_MAC, THIRD_MAC] True (Some [MAC])
                  (Some mock_snapshot) None probed_before_world)
         \<le> nat (MAX_RECONNECT_PER_CYCLE no_cap_config)"
proof -
  define w1 where "w1 = advance probed_before_world"
  have m: "MAX_RECONNECT_PER_CYCLE no_cap_config = 0"
    by (simp add: no_cap_config_def)
  have d: "distinct [OTHER_MAC, THIRD_MAC]" using scenario_addresses by auto
  have p: "pick_reconnect_candidates wall_1000_env probed_before_world [OTHER_MAC, THIRD_MAC] 0
             = [OTHER_MAC, THIRD_MAC]"
    by (simp add: pick_reconnect_candidates_def plain_order [OF d])
  have l: "last_attempt w1 = last_attempt probed_before_world"
    by (rule ext) (simp add: w1_def advance_def last_attempt_def)
  have "map fst (fst (probe_loop no_cap_config wall_1000_env True (Some mock_snapshot) None
                        start [OTHER_MAC, THIRD_MAC] [] w1))
          = map fst ([] :: (string \<times> bool) list) @ [OTHER_MAC, THIRD_MAC]" for start
  proof (rule probe_loop_all_attempted)
    show "distinct [OTHER_MAC, THIRD_MAC]" by (rule d)
    show "set [OTHER_MAC, THIRD_MAC] \<inter> fst ` set ([] :: (string \<times> bool) list) = {}"
      by simp
    fix m
    assume a: "m \<in> set [OTHER_MAC, THIRD_MAC]"
    then show "map_of mock_snapshot (upper m) = None"
      by (intro unknown_to_snapshot) auto
    from a show "last_attempt w1 m \<le> 500"
      by (auto simp: l probed_before_attempts)
    show "next_probe_allowed_at w1 m = None"
      by (simp add: w1_def advance_def probed_before_world_def initial_world_def)
  qed
  then have e: "attempted no_cap_config wall_1000_env [OTHER_MAC, THIRD_MAC] True (Some [MAC])
             (Some mock_snapshot) None probed_before_world = [OTHER_MAC, THIRD_MAC]"
    by (simp add: attempted_def probe_devices_def two_candidates m p Let_def
          w1_def [symmetric] del: probe_loop.simps)
  show ?thesis unfolding e using m by auto
qed

subsection \<open>Registration debounce\<close>

lemma seen_step_refl: "seen_step now M w w"
  unfolding seen_step_def by (rule exI [of _ "device_first_seen w"]) simp

lemma seen_step_trans:
  assumes "seen_step now M a b" and "seen_step now N b c"
  shows "seen_step now (M \<union> N) a c"
proof -
  from assms(1) obtain f where f: "b = a\<lparr>device_first_seen := f\<rparr>"
    "\<forall>m. f m = device_first_seen a m \<or> (device_first_seen a m = None \<and> f m = Some now \<and> m \<in> M)"
    unfolding seen_step_def by blast
  from assms(2) obtain g where g: "c = b\<lparr>device_first_seen := g\<rparr>"
    "\<forall>m. g m = device_first_seen b m \<or> (device_first_seen b m = None \<and> g m = Some now \<and> m \<in> N)"
    unfolding seen_step_def by blast
  have "c = a\<lparr>device_first_seen := g\<rparr>" using f(1) g(1) by simp
  moreover have "\<forall>m. g m = device_first_seen a m
                   \<or> (device_first_seen a m = None \<and> g m = Some now \<and> m \<in> M \<union> N)"
  proof
    fix m
    from f(2) g(2) f(1) show "g m = device_first_seen a m
                   \<or> (device_first_seen a m = None \<and> g m = Some now \<and> m \<in> M \<union> N)"
      by (cases "f m = device_first_seen a m") (auto, metis+)
  qed
  ultimately show ?thesis unfolding seen_step_def by blast
qed

lemma seen_step_mono: "seen_step now M a b \<Longrightarrow> M \<subseteq> N \<Longrightarrow> seen_step now N a b"
  unfolding seen_step_def by blast

lemma should_register_step:
  "seen_step now {m} w (snd (should_register_device cfg m info now w))"
proof (cases "device_first_seen w m")
  case None
  have "seen_step now {m} w (w\<lparr>device_first_seen := (device_first_seen w)(m \<mapsto> now)\<rparr>)"
    unfolding seen_step_def
    by (rule exI [of _ "(device_first_seen w)(m \<mapsto> now)"]) (simp add: None)
  with None show ?thesis
    by (simp add: should_register_device_def seen_step_refl)
next
  case (Some t)
  then show ?thesis by (simp add: should_register_device_def seen_step_refl)
qed

lemma should_register_true:
  assumes "fst (should_register_device cfg m info now w)"
  shows "\<exists>t. device_first_seen w m = Some t
            \<and> real_of_int (FIRST_SEEN_DEBOUNCE_SECONDS cfg) \<le> now - t"
  using assms
  by (auto simp: should_register_device_def split: if_splits option.splits)

lemma find_candidates_loop_step:
  "seen_step now (set ms) w (snd (find_candidates_loop cfg snapshot conn now ms acc w))"
proof (induction ms arbitrary: acc w)
  case Nil
  then show ?case by (simp add: seen_step_refl)
next
  case (Cons m ms)
  have skip: "seen_step now (set (m # ms)) w
                (snd (find_candidates_loop cfg snapshot conn now ms acc' w))" for acc'
    using Cons.IH [of w acc'] by (rule seen_step_mono) auto
  show ?case
  proof (cases "m \<in> conn \<or> map_of snapshot m = None")
    case True
    with skip show ?thesis by auto
  next
    case False
    then obtain info where i: "map_of snapshot m = Some info" by auto
    obtain b w1 where s: "should_register_device cfg m info now w = (b, w1)" by force
    have "seen_step now {m} w w1"
      using should_register_step [of now m w cfg info] s by simp
    moreover have "seen_step now (set ms) w1
       (snd (find_candidates_loop cfg snapshot conn now ms acc' w1))" for acc'
      by (rule Cons.IH)
    ultimately have "seen_step now ({m} \<union> set ms) w
       (snd (find_candidates_loop cfg snapshot conn now ms acc' w1))" for acc'
      by (rule seen_step_trans)
    with False i s show ?thesis by (cases b) auto
  qed
qed

lemma find_candidates_loop_cands:
  assumes "distinct ms"
    and "(m, info) \<in> set (fst (find_candidates_loop cfg snapshot conn now ms acc w))"
  shows "(m, info) \<in> set acc
       \<or> (m \<in> set ms \<and> m \<notin> conn \<and> map_of snapshot m = Some info
          \<and> (\<exists>t. device_first_seen w m = Some t
                 \<and> real_of_int (FIRST_SEEN_DEBOUNCE_SECONDS cfg) \<le> now - t))"
  using assms
proof (induction ms arbitrary: acc w)
  case Nil
  then show ?case by simp
next
  case (Cons m0 ms)
  from Cons.prems(1) have d: "distinct ms" and n: "m0 \<notin> set ms" by auto
  show ?case
  proof (cases "m0 \<in> conn \<or> map_of snapshot m0 = None")
    case True
    then have "find_candidates_loop cfg snapshot conn now (m0 # ms) acc w
                 = find_candidates_loop cfg snapshot conn now ms acc w"
      by auto
    with Cons.prems(2)
    have "(m, info) \<in> set (fst (find_candidates_loop cfg snapshot conn now ms acc w))"
      by (simp del: find_candidates_loop.simps)
    from Cons.IH [OF d this] show ?thesis by auto
  next
    case False
    then obtain i0 where i: "map_of snapshot m0 = Some i0" by auto
    obtain b w1 where s: "should_register_device cfg m0 i0 now w = (b, w1)" by force
    have st: "seen_step now {m0} w w1"
      using should_register_step [of now m0 w cfg i0] s by simp
    then have same: "device_first_seen w1 m' = device_first_seen w m'" if "m' \<noteq> m0" for m'
      using that unfolding seen_step_def by auto
    define acc' where "acc' = (if b then acc @ [(m0, i0)] else acc)"
    have "find_candidates_loop cfg snapshot conn now (m0 # ms) acc w
            = find_candidates_loop cfg snapshot conn now ms acc' w1"
      using False i s by (cases b) (auto simp: acc'_def)
    with Cons.prems(2)
    have "(m, info) \<in> set (fst (find_candidates_loop cfg snapshot conn now ms acc' w1))"
      by (simp del: find_candidates_loop.simps)
    from Cons.IH [OF d this]
    consider (old) "(m, info) \<in> set acc'"
      | (new) "m \<in> set ms" "m \<notin> conn" "map_of snapshot m = Some info"
          "\<exists>t. device_first_seen w1 m = Some t
              \<and> real_of_int (FIRST_SEEN_DEBOUNCE_SECONDS cfg) \<le> now - t"
      by blast
    then show ?thesis
    proof cases
      case old
      show ?thesis
      proof (cases "(m, info) \<in> set acc")
        case True
        then show ?thesis by simp
      next
        case False
        with old have b and "m = m0" and "info = i0"
          by (auto simp: acc'_def split: if_splits)
        with s should_register_true [of cfg m0 i0 now w] \<open>\<not> (m0 \<in> conn \<or> map_of snapshot m0 = None)\<close> i
        show ?thesis by auto
      qed
    next
      case new
      with n have "m \<noteq> m0" by auto
      with new same show ?thesis by auto
    qed
  qed
qed

lemma submit_first_seen:
  "device_first_seen (snd (submit_convex_call cfg ev call reply w)) = device_first_seen w"
proof (cases "monotonic ev (tick w) < convex_circuit_open_until w")
  case True
  then show ?thesis by (simp add: submit_open advance_def)
next
  case False
  then show ?thesis
    by (cases reply) (simp_all add: submit_closed advance_def emit_def)
qed

lemma register_new_device_world:
  "snd (register_new_device cfg ev m n w) =
     snd (submit_convex_call cfg ev
            (RegisterPendingDevice m (case or_else n (Some []) of None \<Rightarrow> [] | Some n \<Rightarrow> n))
            (mutation_reply ev (tick w)) w)"
proof (cases "submit_convex_call cfg ev
            (RegisterPendingDevice m (case or_else n (Some []) of None \<Rightarrow> [] | Some n \<Rightarrow> n))
            (mutation_reply ev (tick w)) w")
  case (Pair r w1)
  then show ?thesis by (cases r) (simp_all add: register_new_device_def)
qed

lemma register_new_device_first_seen:
  "device_first_seen (snd (register_new_device cfg ev m n w)) = device_first_seen w"
  by (simp add: register_new_device_world submit_first_seen)

lemma register_new_device_emits:
  "emits (\<lambda>e. \<exists>n'. e = Submit (RegisterPendingDevice m n')) w
     (snd (register_new_device cfg ev m n w))"
  unfolding register_new_device_world
  by (rule emits_mono [OF submit_convex_call_emits]) auto

lemma emits_update:
  "emits P w w' \<Longrightarrow>
   emits P w (w'\<lparr>failed_registrations := f, device_first_seen := g\<rparr>)"
  "emits P w w' \<Longrightarrow> emits P w (w'\<lparr>failed_registrations := f\<rparr>)"
  "emits P w w' \<Longrightarrow> emits P w (w'\<lparr>device_first_seen := g\<rparr>)"
  by (simp_all add: emits_def)

lemma register_candidates_emits:
  "emits (\<lambda>e. \<exists>m n. e = Submit (RegisterPendingDevice m n)
                 \<and> m \<in> fst ` set cands \<and> m \<notin> set (convex_macs devices))
     w (register_candidates cfg ev devices cands w)"
proof (induction cands arbitrary: w)
  case Nil
  then show ?case by (simp add: emits_refl)
next
  case (Cons c cands)
  obtain m info where c: "c = (m, info)" by force
  let ?P = "\<lambda>e. \<exists>m' n. e = Submit (RegisterPendingDevice m' n)
                 \<and> m' \<in> fst ` set (c # cands) \<and> m' \<notin> set (convex_macs devices)"
  have rest: "emits ?P w' (register_candidates cfg ev devices cands w')" for w'
    using Cons.IH [of w'] by (rule emits_mono) auto
  show ?case
  proof (cases "m \<in> set (convex_macs devices)")
    case True
    have "emits ?P w (w\<lparr>device_first_seen := (device_first_seen w)(m := None)\<rparr>)"
      by (intro emits_update emits_refl)
    with rest have "emits ?P w (register_candidates cfg ev devices cands
                      (w\<lparr>device_first_seen := (device_first_seen w)(m := None)\<rparr>))"
      by (rule emits_trans [rotated])
    with True c show ?thesis by simp
  next
    case False
    obtain b w1 where r: "register_new_device cfg ev m (or_else (alias info) (name info)) w
                            = (b, w1)" by force
    have e1: "emits ?P w w1"
      using register_new_device_emits [of m w cfg ev "or_else (alias info) (name info)"] r False c
      by (auto intro: emits_mono)
    have "emits ?P w (register_candidates cfg ev devices cands (w1\<lparr>failed_registrations := f,
                        device_first_seen := g\<rparr>))" for f g
      using emits_update(1) [OF e1] rest by (rule emits_trans)
    moreover have "emits ?P w (register_candidates cfg ev devices cands
                     (w1\<lparr>failed_registrations := f\<rparr>))" for f
      using emits_update(2) [OF e1] rest by (rule emits_trans)
    ultimately show ?thesis
      using False c r by (cases b) simp_all
  qed
qed

lemma register_candidates_first_seen:
  "device_first_seen (register_candidates cfg ev devices cands w) m = device_first_seen w m
   \<or> device_first_seen (register_candidates cfg ev devices cands w) m = None"
proof (induction cands arbitrary: w)
  case Nil
  then show ?case by simp
next
  case (Cons c cands)
  obtain m0 info where c: "c = (m0, info)" by force
  show ?case
  proof (cases "m0 \<in> set (convex_macs devices)")
    case True
    with c Cons.IH [of "w\<lparr>device_first_seen := (device_first_seen w)(m0 := None)\<rparr>"]
    show ?thesis by (auto split: if_splits)
  next
    case False
    obtain b w1 where r: "register_new_device cfg ev m0 (or_else (alias info) (name info)) w
                            = (b, w1)" by force
    then have f: "device_first_seen w1 = device_first_seen w"
      using register_new_device_first_seen [of cfg ev m0 "or_else (alias info) (name info)" w]
      by simp
    show ?thesis
    proof (cases b)
      case True
      with False c r f
        Cons.IH [of "w1\<lparr>failed_registrations := failed_registrations w1 - {m0},
                         device_first_seen := (device_first_seen w1)(m0 := None)\<rparr>"]
      show ?thesis by (auto split: if_splits)
    next
      case False
      with \<open>m0 \<notin> set (convex_macs devices)\<close> c r f
        Cons.IH [of "w1\<lparr>failed_registrations := insert m0 (failed_registrations w1)\<rparr>"]
      show ?thesis by auto
    qed
  qed
qed

lemma get_devices_in_range_world:
  "trace (snd (get_devices_in_range cfg ev snapshot now w)) = trace w
   \<and> device_first_seen (snd (get_devices_in_range cfg ev snapshot now w)) = device_first_seen w"
  by (simp add: get_devices_in_range_def Let_def advance_def)

lemma get_devices_in_range_first_seen:
  "fst (get_devices_in_range cfg ev snapshot now (w\<lparr>device_first_seen := fs\<rparr>))
     = fst (get_devices_in_range cfg ev snapshot now w)"
  by (simp add: get_devices_in_range_def Let_def is_rssi_fresh_def)

lemma get_devices_in_range_distinct:
  "distinct (fst (get_devices_in_range cfg ev snapshot now w))"
  by (simp add: get_devices_in_range_def Let_def)

lemma is_registration_of_iff:
  "is_registration_of m e \<longleftrightarrow> (\<exists>n. e = Submit (RegisterPendingDevice m n))"
  by (cases "(m, e)" rule: is_registration_of.cases) auto

text \<open>One cycle of the in-range registration.\<close>

lemma register_in_range_devices_registers:
  assumes "registers w (register_in_range_devices cfg ev snapshot conn devices now w) m"
  shows "m \<in> set (fst (get_devices_in_range cfg ev snapshot now w))
       \<and> m \<notin> conn \<and> m \<notin> set (convex_macs devices)
       \<and> (\<exists>t. device_first_seen w m = Some t
              \<and> real_of_int (FIRST_SEEN_DEBOUNCE_SECONDS cfg) \<le> now - t)"
proof -
  obtain ms w0 where g: "get_devices_in_range cfg ev snapshot now w = (ms, w0)" by force
  obtain cands w1 where f: "find_candidates_loop cfg snapshot conn now ms [] w0 = (cands, w1)"
    by force
  define w2 where "w2 = register_candidates cfg ev devices cands w1"
  have r: "register_in_range_devices cfg ev snapshot conn devices now w = w2"
    by (simp add: register_in_range_devices_def find_registration_candidates_def g f w2_def)
  have t0: "trace w0 = trace w" and s0: "device_first_seen w0 = device_first_seen w"
    using get_devices_in_range_world [of cfg ev snapshot now w] g by simp_all
  have "seen_step now (set ms) w0 w1"
    using find_candidates_loop_step [of now ms w0 cfg snapshot conn "[]"] f by simp
  then have t1: "trace w1 = trace w0" unfolding seen_step_def by auto
  have "emits (\<lambda>e. \<exists>m n. e = Submit (RegisterPendingDevice m n)
                 \<and> m \<in> fst ` set cands \<and> m \<notin> set (convex_macs devices)) w1 w2"
    unfolding w2_def by (rule register_candidates_emits)
  then have "list_all (\<lambda>e. \<exists>m n. e = Submit (RegisterPendingDevice m n)
                 \<and> m \<in> fst ` set cands \<and> m \<notin> set (convex_macs devices)) (new_events w1 w2)"
    by (rule emits_new_events)
  moreover have "new_events w1 w2 = new_events w w2"
    by (simp add: new_events_def t0 t1)
  ultimately have "m \<in> fst ` set cands \<and> m \<notin> set (convex_macs devices)"
    using assms unfolding registers_def r
    by (auto simp: list_ex_iff list_all_iff is_registration_of_iff)
  then obtain info where "(m, info) \<in> set cands" and k: "m \<notin> set (convex_macs devices)"
    by auto
  with f have "(m, info) \<in> set (fst (find_candidates_loop cfg snapshot conn now ms [] w0))"
    by simp
  from find_candidates_loop_cands [OF _ this] get_devices_in_range_distinct [of cfg ev snapshot now w] g
  have "m \<in> set ms \<and> m \<notin> conn
          \<and> (\<exists>t. device_first_seen w0 m = Some t
                 \<and> real_of_int (FIRST_SEEN_DEBOUNCE_SECONDS cfg) \<le> now - t)"
    by auto
  with g s0 k show ?thesis by simp
qed

lemma register_in_range_devices_first_seen:
  "device_first_seen (register_in_range_devices cfg ev snapshot conn devices now w) m
     = device_first_seen w m
   \<or> device_first_seen (register_in_range_devices cfg ev snapshot conn devices now w) m = None
   \<or> (device_first_seen w m = None
      \<and> device_first_seen (register_in_range_devices cfg ev snapshot conn devices now w) m
          = Some now
      \<and> m \<in> set (fst (get_devices_in_range cfg ev snapshot now w)))"
proof -
  obtain ms w0 where g: "get_devices_in_range cfg ev snapshot now w = (ms, w0)" by force
  obtain cands w1 where f: "find_candidates_loop cfg snapshot conn now ms [] w0 = (cands, w1)"
    by force
  define w2 where "w2 = register_candidates cfg ev devices cands w1"
  have r: "register_in_range_devices cfg ev snapshot conn devices now w = w2"
    by (simp add: register_in_range_devices_def find_registration_candidates_def g f w2_def)
  have s0: "device_first_seen w0 = device_first_seen w"
    using get_devices_in_range_world [of cfg ev snapshot now w] g by simp
  have "seen_step now (set ms) w0 w1"
    using find_candidates_loop_step [of now ms w0 cfg snapshot conn "[]"] f by simp
  then have "device_first_seen w1 m = device_first_seen w0 m
             \<or> (device_first_seen w0 m = None \<and> device_first_seen w1 m = Some now \<and> m \<in> set ms)"
    unfolding seen_step_def by auto
  moreover have "device_first_seen w2 m = device_first_seen w1 m \<or> device_first_seen w2 m = None"
    unfolding w2_def by (rule register_candidates_first_seen)
  ultimately show ?thesis
    unfolding r using s0 g by auto
qed

subsection \<open>Debounce over a sequence of cycles\<close>

lemma cycle_end_seen:
  assumes "\<forall>m t. fs m = Some t \<longrightarrow> (\<exists>p \<in> set past. c_now p = t \<and> observed cfg p m)"
  shows "\<forall>m t. device_first_seen (cycle_end cfg c fs) m = Some t \<longrightarrow>
           (\<exists>p \<in> set (past @ [c]). c_now p = t \<and> observed cfg p m)"
proof (intro allI impI)
  fix m t
  assume a: "device_first_seen (cycle_end cfg c fs) m = Some t"
  have f: "device_first_seen (cycle_start c fs) = fs" by (simp add: cycle_start_def)
  have o: "set (fst (get_devices_in_range cfg (c_env c) (c_snapshot c) (c_now c) (cycle_start c fs)))
             = set (fst (get_devices_in_range cfg (c_env c) (c_snapshot c) (c_now c) (c_world c)))"
    by (simp add: cycle_start_def get_devices_in_range_first_seen)
  from register_in_range_devices_first_seen [of cfg "c_env c" "c_snapshot c" "c_connected c"
         "c_devices c" "c_now c" "cycle_start c fs" m] a
  consider "fs m = Some t" | "t = c_now c" "observed cfg c m"
    unfolding cycle_end_def [symmetric] f observed_def o by auto
  then show "\<exists>p \<in> set (past @ [c]). c_now p = t \<and> observed cfg p m"
  proof cases
    case 1
    with assms show ?thesis by auto
  next
    case 2
    then show ?thesis by auto
  qed
qed

lemma run_cycles_seen:
  assumes "\<forall>m t. fs m = Some t \<longrightarrow> (\<exists>p \<in> set past. c_now p = t \<and> observed cfg p m)"
  shows "\<forall>m t. run_cycles cfg cs fs m = Some t \<longrightarrow>
           (\<exists>p \<in> set (past @ cs). c_now p = t \<and> observed cfg p m)"
  using assms
proof (induction cs arbitrary: past fs)
  case Nil
  then show ?case by simp
next
  case (Cons c cs)
  from Cons.IH [OF cycle_end_seen [OF Cons.prems, of c]] show ?case by simp
qed

lemma run_cycles_from_start:
  "run_cycles cfg past Map.empty m = Some t \<Longrightarrow>
     \<exists>p \<in> set past. c_now p = t \<and> observed cfg p m"
  using run_cycles_seen [of Map.empty "[]" cfg past] by simp

lemma cycle_registers:
  assumes "registers (cycle_start c fs) (cycle_end cfg c fs) m"
  shows "observed cfg c m \<and> m \<notin> c_connected c \<and> m \<notin> set (convex_macs (c_devices c))
       \<and> (\<exists>t. fs m = Some t \<and> real_of_int (FIRST_SEEN_DEBOUNCE_SECONDS cfg) \<le> c_now c - t)"
  using register_in_range_devices_registers [OF assms [unfolded cycle_end_def]]
  by (simp add: observed_def cycle_start_def get_devices_in_range_first_seen)

text \<open>
  C3. Start from an empty first-seen table and run any sequence of cycles. If in the next
  cycle the in-range path hands a registration of an address to the store, then the
  address is in range in that cycle, not connected and without a store record, and it was
  in range in an earlier cycle whose time lies at least the debounce window before the
  time of this one. In a cycle that starts without a first-seen entry for the address, the
  in-range path does not register it; at most it records the time of the cycle as the
  first-seen time of an address that is in range.
\<close>

theorem C3_registration_needs_two_observations:
  "(registers (cycle_start c (run_cycles cfg past Map.empty))
          (cycle_end cfg c (run_cycles cfg past Map.empty)) mac_address \<longrightarrow>
      (\<exists>p \<in> set past. observed cfg p mac_address
          \<and> real_of_int (FIRST_SEEN_DEBOUNCE_SECONDS cfg) \<le> c_now c - c_now p)
      \<and> observed cfg c mac_address
      \<and> mac_address \<notin> c_connected c
      \<and> mac_address \<notin> set (convex_macs (c_devices c)))
   \<and> (run_cycles cfg past Map.empty mac_address = None \<longrightarrow>
      \<not> registers (cycle_start c (run_cycles cfg past Map.empty))
          (cycle_end cfg c (run_cycles cfg past Map.empty)) mac_address
      \<and> (device_first_seen (cycle_end cfg c (run_cycles cfg past Map.empty)) mac_address = None
         \<or> device_first_seen (cycle_end cfg c (run_cycles cfg past Map.empty)) mac_address
              = Some (c_now c) \<and> observed cfg c mac_address))"
proof (intro conjI impI)
  let ?fs = "run_cycles cfg past Map.empty"
  {
    assume r: "registers (cycle_start c ?fs) (cycle_end cfg c ?fs) mac_address"
    from cycle_registers [OF r] obtain t where
      t: "?fs mac_address = Some t" "real_of_int (FIRST_SEEN_DEBOUNCE_SECONDS cfg) \<le> c_now c - t"
      and o: "observed cfg c mac_address" "mac_address \<notin> c_connected c"
        "mac_address \<notin> set (convex_macs (c_devices c))"
      by blast
    from run_cycles_from_start [OF t(1)] t(2)
    show "\<exists>p \<in> set past. observed cfg p mac_address
          \<and> real_of_int (FIRST_SEEN_DEBOUNCE_SECONDS cfg) \<le> c_now c - c_now p"
      by auto
    from o show "observed cfg c mac_address" "mac_address \<notin> c_connected c"
      "mac_address \<notin> set (convex_macs (c_devices c))"
      by simp_all
  }
  assume n: "?fs mac_address = None"
  show "\<not> registers (cycle_start c ?fs) (cycle_end cfg c ?fs) mac_address"
    using cycle_registers [of c ?fs cfg mac_address] n by auto
  have f: "device_first_seen (cycle_start c ?fs) = ?fs" by (simp add: cycle_start_def)
  from register_in_range_devices_first_seen [of cfg "c_env c" "c_snapshot c" "c_connected c"
         "c_devices c" "c_now c" "cycle_start c ?fs" mac_address] n
  show "device_first_seen (cycle_end cfg c ?fs) mac_address = None
         \<or> device_first_seen (cycle_end cfg c ?fs) mac_address = Some (c_now c)
            \<and> observed cfg c mac_address"
    unfolding cycle_end_def [symmetric] f observed_def
    by (auto simp: cycle_start_def get_devices_in_range_first_seen)
qed

lemma seen_in_range:
  assumes "now \<noteq> 0" and "now - last_rssi_refresh_time w \<le> 15"
  shows "get_devices_in_range default_config ev seen_snapshot now w = ([OTHER_MAC], w)"
  using assms
  by (simp add: get_devices_in_range_def is_rssi_fresh_def default_config_def seen_snapshot_def
        device_has_presence_signal_def seen_info_def other_info_def)

lemma seen_lookup: "map_of seen_snapshot OTHER_MAC = Some seen_info"
  by (simp add: seen_snapshot_def)

lemma seen_gates:
  "paired seen_info" "rssi seen_info \<noteq> None" "alias seen_info = None"
  "name seen_info = Some ''watch''"
  by (simp_all add: seen_info_def other_info_def)

lemma first_cycle_end:
  "cycle_end default_config first_cycle Map.empty
     = (initial_world\<lparr>last_rssi_refresh_time := 95\<rparr>)\<lparr>device_first_seen := [OTHER_MAC \<mapsto> 100]\<rparr>"
proof -
  have "get_devices_in_range default_config store_ok_env seen_snapshot 100
          (cycle_start first_cycle Map.empty) = ([OTHER_MAC], cycle_start first_cycle Map.empty)"
    by (rule seen_in_range) (simp_all add: cycle_start_def first_cycle_def initial_world_def)
  moreover have "c_env first_cycle = store_ok_env" "c_snapshot first_cycle = seen_snapshot"
    "c_connected first_cycle = {}" "c_devices first_cycle = []" "c_now first_cycle = 100"
    by (simp_all add: first_cycle_def)
  ultimately show ?thesis
    by (simp add: cycle_end_def register_in_range_devices_def
          find_registration_candidates_def seen_lookup should_register_device_def seen_gates)
       (simp add: cycle_start_def first_cycle_def initial_world_def)
qed

lemma first_cycle_run: "run_cycles default_config [first_cycle] Map.empty = [OTHER_MAC \<mapsto> 100]"
  by (simp add: first_cycle_end)

lemma second_cycle_registers:
  "registers (cycle_start second_cycle [OTHER_MAC \<mapsto> 100])
     (cycle_end default_config second_cycle [OTHER_MAC \<mapsto> 100]) OTHER_MAC"
proof -
  define w where "w = cycle_start second_cycle [OTHER_MAC \<mapsto> 100]"
  have f: "device_first_seen w OTHER_MAC = Some 100" "trace w = []" "tick w = 0"
    "convex_circuit_open_until w = 0"
    by (simp_all add: w_def cycle_start_def second_cycle_def initial_world_def)
  have g: "get_devices_in_range default_config store_ok_env seen_snapshot 112 w = ([OTHER_MAC], w)"
    by (rule seen_in_range)
       (simp_all add: w_def cycle_start_def second_cycle_def initial_world_def)
  have s: "should_register_device default_config OTHER_MAC seen_info 112 w = (True, w)"
    by (simp add: should_register_device_def seen_gates f default_config_def)
  have c: "\<not> monotonic store_ok_env (tick w) < convex_circuit_open_until w"
    by (simp add: f store_ok_env_def quiet_env_def)
  have m: "mutation_reply store_ok_env n = Returned (Some ())" for n
    by (simp add: store_ok_env_def)
  have r: "register_new_device default_config store_ok_env OTHER_MAC (Some ''watch'') w =
             (True, (emit (Submit (RegisterPendingDevice OTHER_MAC ''watch'')) (advance w))
                      \<lparr>convex_consecutive_timeouts := 0\<rparr>)"
    by (simp add: register_new_device_def submit_closed [OF c] m or_else_def truthy_def)
  have sc: "c_env second_cycle = store_ok_env" "c_snapshot second_cycle = seen_snapshot"
    "c_connected second_cycle = {}" "c_devices second_cycle = []" "c_now second_cycle = 112"
    by (simp_all add: second_cycle_def)
  have "trace (cycle_end default_config second_cycle [OTHER_MAC \<mapsto> 100])
          = [Submit (RegisterPendingDevice OTHER_MAC ''watch'')]"
    by (simp add: cycle_end_def sc w_def [symmetric] register_in_range_devices_def
          find_registration_candidates_def g seen_lookup s convex_macs_def seen_gates or_else_def
          truthy_def r emit_def advance_def f)
  then show ?thesis
    by (simp add: registers_def new_events_def w_def [symmetric] f)
qed

theorem C3_witness:
  "registers (cycle_start second_cycle (run_cycles default_config [first_cycle] Map.empty))
     (cycle_end default_config second_cycle (run_cycles default_config [first_cycle] Map.empty))
     OTHER_MAC
   \<and> observed default_config first_cycle OTHER_MAC
   \<and> real_of_int (FIRST_SEEN_DEBOUNCE_SECONDS default_config)
        \<le> c_now second_cycle - c_now first_cycle
   \<and> run_cycles default_config [] Map.empty OTHER_MAC = None
   \<and> \<not> registers (cycle_start first_cycle (run_cycles default_config [] Map.empty))
          (cycle_end default_config first_cycle (run_cycles default_config [] Map.empty))
          OTHER_MAC
   \<and> device_first_seen
        (cycle_end default_config first_cycle (run_cycles default_config [] Map.empty)) OTHER_MAC
       = Some (c_now first_cycle)"
proof -
  have r: "registers (cycle_start second_cycle (run_cycles default_config [first_cycle] Map.empty))
     (cycle_end default_config second_cycle (run_cycles default_config [first_cycle] Map.empty))
     OTHER_MAC"
    unfolding first_cycle_run by (rule second_cycle_registers)
  have n: "run_cycles default_config [] Map.empty OTHER_MAC = None" by simp
  have e: "device_first_seen
        (cycle_end default_config first_cycle (run_cycles default_config [] Map.empty)) OTHER_MAC
       = Some (c_now first_cycle)"
    by (simp add: first_cycle_end) (simp add: first_cycle_def)
  from C3_registration_needs_two_observations [of second_cycle default_config "[first_cycle]"
         OTHER_MAC] r
  have a: "observed default_config first_cycle OTHER_MAC
      \<and> real_of_int (FIRST_SEEN_DEBOUNCE_SECONDS default_config)
           \<le> c_now second_cycle - c_now first_cycle"
    by simp
  from C3_registration_needs_two_observations [of first_cycle default_config "[]" OTHER_MAC] n
  have b: "\<not> registers (cycle_start first_cycle (run_cycles default_config [] Map.empty))
          (cycle_end default_config first_cycle (run_cycles default_config [] Map.empty))
          OTHER_MAC"
    by blast
  from r a n b e show ?thesis by simp
qed

subsection \<open>Status updates\<close>

lemma submit_closed_trace:
  assumes "\<not> monotonic ev (tick w) < convex_circuit_open_until w"
  shows "trace (snd (submit_convex_call cfg ev call reply w)) = trace w @ [Submit call]"
  by (cases reply) (simp_all add: submit_closed [OF assms] advance_def emit_def)

lemma log_attendance_emits:
  "emits (\<lambda>e. is_store_call e \<and> \<not> is_status_update e) w
     (snd (log_attendance cfg ev m n s w))"
proof (cases "submit_convex_call cfg ev (LogAttendance m n s) (mutation_reply ev (tick w)) w")
  case (Pair r w1)
  have "emits (\<lambda>e. e = Submit (LogAttendance m n s)) w
          (snd (submit_convex_call cfg ev (LogAttendance m n s) (mutation_reply ev (tick w)) w))"
    by (rule submit_convex_call_emits)
  then have "emits (\<lambda>e. is_store_call e \<and> \<not> is_status_update e) w w1"
    using Pair by (auto intro: emits_mono)
  with Pair show ?thesis by (cases r) (simp_all add: log_attendance_def)
qed

lemma get_device_by_mac_emits:
  "emits (\<lambda>e. is_store_call e \<and> \<not> is_status_update e) w
     (snd (get_device_by_mac cfg ev m w))"
  using get_known_devices_emits [of w cfg ev]
  by (auto simp: get_device_by_mac_def split: prod.splits intro: emits_mono)

lemma emits_previous_status:
  "emits P w w' \<Longrightarrow> emits P w (w'\<lparr>device_previous_status := f\<rparr>)"
  by (simp add: emits_def)

text \<open>What one call of \<^verbatim>\<open>update_device_status\<close> sends to the store.\<close>

lemma update_device_status_events:
  fixes cfg ev m ic cs cache w
  defines "prev \<equiv> (case cs of Some s \<Rightarrow> Some s | None \<Rightarrow> device_previous_status w m)"
  shows "\<exists>rest. list_all (\<lambda>e. is_store_call e \<and> \<not> is_status_update e) rest
           \<and> trace (snd (update_device_status cfg ev m ic cs cache w)) =
               trace w @
               (if prev = Some (status_of ic) \<or> circuit_open ev w then []
                else Submit (UpdateDeviceStatus m (status_of ic)) # rest)"
proof (cases "prev = Some (status_of ic)")
  case True
  then show ?thesis
    by (intro exI [of _ "[]"])
       (simp add: update_device_status_def prev_def Let_def)
next
  case unchanged: False
  let ?call = "UpdateDeviceStatus m (status_of ic)"
  obtain r w1 where s: "submit_convex_call cfg ev ?call (mutation_reply ev (tick w)) w = (r, w1)"
    by force
  show ?thesis
  proof (cases "circuit_open ev w")
    case True
    then have "submit_convex_call cfg ev ?call (mutation_reply ev (tick w)) w = (None, advance w)"
      unfolding circuit_open_def by (rule submit_open)
    with unchanged True show ?thesis
      by (intro exI [of _ "[]"])
         (simp add: update_device_status_def prev_def Let_def advance_def)
  next
    case False
    then have t1: "trace w1 = trace w @ [Submit ?call]"
      using submit_closed_trace [of ev w cfg ?call "mutation_reply ev (tick w)"] s
      by (simp add: circuit_open_def)
    let ?Q = "\<lambda>e. is_store_call e \<and> \<not> is_status_update e"
    have tail: "\<exists>rest. list_all ?Q rest \<and> trace w' = trace w @ Submit ?call # rest"
      if "emits ?Q w1 w'" for w'
      using that t1 unfolding emits_def by auto
    show ?thesis
    proof (cases r)
      case None
      have "emits ?Q w1 w1" by (rule emits_refl)
      from tail [OF this] None s unchanged False show ?thesis
        by (auto simp: update_device_status_def prev_def Let_def)
    next
      case (Some u)
      obtain d w2 where g: "(case cache of
                         None \<Rightarrow> get_device_by_mac cfg ev m w1
                       | Some c \<Rightarrow>
                           if c = [] then get_device_by_mac cfg ev m w1
                           else (map_of c m, w1)) = (d, w2)"
        by force
      have e2: "emits ?Q w1 w2"
        using g get_device_by_mac_emits [of w1 cfg ev m]
        by (auto simp: emits_refl split: option.splits if_splits)
      define w3 where "w3 = (case d of
                                  None \<Rightarrow> w2
                                | Some d' \<Rightarrow>
                                    if \<not> pendingRegistration d'
                                    then snd (log_attendance cfg ev m
                                                (attendance_name d' m) (status_of ic) w2)
                                    else w2)"
      have "emits ?Q w2 w3"
        unfolding w3_def using log_attendance_emits [of w2 cfg ev m]
        by (auto simp: emits_refl split: option.splits)
      with e2 have "emits ?Q w1 w3" by (rule emits_trans)
      then have "emits ?Q w1 (w3\<lparr>device_previous_status :=
                                   (device_previous_status w3)(m \<mapsto> status_of ic)\<rparr>)"
        by (rule emits_previous_status)
      from tail [OF this] obtain rest where
        rest: "list_all ?Q rest"
        "trace (w3\<lparr>device_previous_status := (device_previous_status w3)(m \<mapsto> status_of ic)\<rparr>)
           = trace w @ Submit ?call # rest"
        by blast
      have "update_device_status cfg ev m ic cs cache w =
              (True, w3\<lparr>device_previous_status :=
                          (device_previous_status w3)(m \<mapsto> status_of ic)\<rparr>)"
        using unchanged s Some g
        by (simp add: update_device_status_def prev_def Let_def w3_def)
      with rest unchanged False show ?thesis
        by (intro exI [of _ rest]) simp
    qed
  qed
qed

lemma update_status_of_trace:
  assumes "truthy (macAddress device)"
  shows "\<exists>rest. list_all (\<lambda>e. is_store_call e \<and> \<not> is_status_update e) rest
           \<and> trace (update_status_of cfg ev present_set by_mac device w) =
               trace w @
               (if last_known_status w device
                     = Some (status_of (the (macAddress device) \<in> present_set))
                   \<or> circuit_open ev w
                then []
                else Submit (UpdateDeviceStatus (the (macAddress device))
                               (status_of (the (macAddress device) \<in> present_set))) # rest)"
proof (cases "Some (status_of (the (macAddress device) \<in> present_set)) = current_status_of device")
  case True
  from this [symmetric] have "last_known_status w device
               = Some (status_of (the (macAddress device) \<in> present_set))"
    by (simp add: last_known_status_def)
  with True assms show ?thesis
    by (intro exI [of _ "[]"]) (simp add: update_status_of_def Let_def)
next
  case False
  have l: "last_known_status w device =
             (case current_status_of device of
                Some s \<Rightarrow> Some s
              | None \<Rightarrow> device_previous_status w (the (macAddress device)))"
    by (simp add: last_known_status_def)
  from False assms
  have "update_status_of cfg ev present_set by_mac device w =
          snd (update_device_status cfg ev (the (macAddress device))
                 (the (macAddress device) \<in> present_set) (current_status_of device)
                 (Some by_mac) w)"
    by (simp add: update_status_of_def Let_def)
  with update_device_status_events [where w = w and cfg = cfg and ev = ev
         and m = "the (macAddress device)" and ic = "the (macAddress device) \<in> present_set"
         and cs = "current_status_of device" and cache = "Some by_mac"]
  show ?thesis by (simp add: l)
qed

lemma last_known_differs:
  assumes "last_known_status w device \<noteq> Some s"
  shows "status device \<noteq> Val s"
  using assms by (auto simp: last_known_status_def current_status_of_def)

lemma update_status_of_justified:
  assumes "device \<in> set devices"
  shows "emits (status_update_justified present_set devices) w
           (update_status_of cfg ev present_set by_mac device w)"
proof (cases "truthy (macAddress device)")
  case False
  then show ?thesis by (simp add: update_status_of_def emits_refl)
next
  case True
  let ?m = "the (macAddress device)"
  let ?s = "status_of (?m \<in> present_set)"
  from True have m: "macAddress device = Some ?m" by (auto simp: truthy_def split: option.splits)
  from update_status_of_trace [OF True, where w = w and cfg = cfg and ev = ev
         and present_set = present_set and by_mac = by_mac] obtain rest where
    r: "list_all (\<lambda>e. is_store_call e \<and> \<not> is_status_update e) rest"
    and n: "trace (update_status_of cfg ev present_set by_mac device w) =
               trace w @ (if last_known_status w device = Some ?s \<or> circuit_open ev w then []
                else Submit (UpdateDeviceStatus ?m ?s) # rest)"
    by blast
  have q: "status_update_justified present_set devices e"
    if "is_store_call e \<and> \<not> is_status_update e" for e
    using that by (cases "(present_set, devices, e)" rule: status_update_justified.cases) auto
  show ?thesis
  proof (cases "last_known_status w device = Some ?s \<or> circuit_open ev w")
    case True
    with n show ?thesis by (simp add: emits_def)
  next
    case False
    then have "last_known_status w device \<noteq> Some ?s" by simp
    then have "status device \<noteq> Val ?s" by (rule last_known_differs)
    with assms m have "status_update_justified present_set devices
                         (Submit (UpdateDeviceStatus ?m ?s))"
      by (auto simp: list_ex_iff)
    moreover from r q have "list_all (status_update_justified present_set devices) rest"
      by (auto simp: list_all_iff)
    ultimately show ?thesis
      using n False unfolding emits_def
      by (intro exI [of _ "Submit (UpdateDeviceStatus ?m ?s) # rest"]) simp
  qed
qed

lemma status_update_justified_mono:
  "status_update_justified present_set ds e \<Longrightarrow> set ds \<subseteq> set ds' \<Longrightarrow>
     status_update_justified present_set ds' e"
  by (cases "(present_set, ds, e)" rule: status_update_justified.cases)
     (auto simp: list_ex_iff)

lemma update_statuses_justified:
  "set ds \<subseteq> set devices \<Longrightarrow>
     emits (status_update_justified present_set devices) w
       (update_statuses cfg ev present_set by_mac ds w)"
proof (induction ds arbitrary: w)
  case Nil
  then show ?case by (simp add: emits_refl)
next
  case (Cons d ds)
  then have "d \<in> set devices" and "set ds \<subseteq> set devices" by auto
  from update_status_of_justified [OF this(1), where present_set = present_set and w = w
         and cfg = cfg and ev = ev and by_mac = by_mac]
    Cons.IH [OF this(2), where w = "update_status_of cfg ev present_set by_mac d w"]
  show ?case by (simp add: emits_trans)
qed

text \<open>
  C4 (as amended). For a record of the store's list with an address, the status derived
  from the presence set is \<open>present\<close> when the address is in the set and \<open>absent\<close>
  otherwise. The loop body hands an \<^verbatim>\<open>updateDeviceStatus\<close> mutation to the store if and
  only if the derived status differs from the last-known status and the circuit breaker
  lets the call through at that moment; the mutation is then for this address with the
  derived status. When the derived status equals the last-known status, no store call at
  all is made for the record. Over the whole loop, every status update sent is for the
  address of a record whose store status differs from the status sent.
\<close>

theorem C4_status_update_iff_changed_and_circuit_closed:
  assumes "truthy (macAddress device)"
  shows "(list_ex is_status_update
            (new_events w (update_status_of cfg ev present_set by_mac device w))
          \<longleftrightarrow> last_known_status w device
                \<noteq> Some (status_of (the (macAddress device) \<in> present_set))
              \<and> \<not> circuit_open ev w)
       \<and> list_all (\<lambda>e. \<not> is_status_update e \<or>
                        e = Submit (UpdateDeviceStatus (the (macAddress device))
                                      (status_of (the (macAddress device) \<in> present_set))))
           (new_events w (update_status_of cfg ev present_set by_mac device w))
       \<and> (last_known_status w device
             = Some (status_of (the (macAddress device) \<in> present_set)) \<longrightarrow>
           new_events w (update_status_of cfg ev present_set by_mac device w) = [])
       \<and> list_all (status_update_justified present_set devices)
           (new_events w (update_statuses cfg ev present_set by_mac devices w))"
proof -
  from update_status_of_trace [OF assms, where w = w and cfg = cfg and ev = ev
         and present_set = present_set and by_mac = by_mac] obtain rest where
    r: "list_all (\<lambda>e. is_store_call e \<and> \<not> is_status_update e) rest"
    and n: "trace (update_status_of cfg ev present_set by_mac device w) =
               trace w @
               (if last_known_status w device
                     = Some (status_of (the (macAddress device) \<in> present_set))
                   \<or> circuit_open ev w
                then []
                else Submit (UpdateDeviceStatus (the (macAddress device))
                               (status_of (the (macAddress device) \<in> present_set))) # rest)"
    by blast
  from r have r': "\<not> list_ex is_status_update rest"
    by (auto simp: list_ex_iff list_all_iff)
  from r have r'': "list_all (\<lambda>e. \<not> is_status_update e \<or> e = x) rest" for x
    by (auto simp: list_all_iff)
  have "list_all (status_update_justified present_set devices)
           (new_events w (update_statuses cfg ev present_set by_mac devices w))"
    by (rule emits_new_events [OF update_statuses_justified]) simp
  then show ?thesis
    using n r' r'' by (simp add: new_events_def)
qed

lemma absent_device_facts:
  "truthy (macAddress absent_device)" "the (macAddress absent_device) = MAC"
  "last_known_status w absent_device = Some ''absent''"
  "status_of (MAC \<in> {MAC}) = ''present''"
  by (simp_all add: absent_device_def truthy_def MAC_nonempty last_known_status_def
        current_status_of_def status_of_def)

theorem C4_witness:
  "truthy (macAddress absent_device)
   \<and> \<not> circuit_open quiet_env initial_world
   \<and> last_known_status initial_world absent_device
       \<noteq> Some (status_of (the (macAddress absent_device) \<in> {MAC}))
   \<and> list_ex is_status_update
        (new_events initial_world
           (update_status_of default_config quiet_env {MAC} (devices_by_mac [absent_device])
              absent_device initial_world))"
proof -
  have c: "\<not> circuit_open quiet_env initial_world"
    by (simp add: circuit_open_def quiet_env_def initial_world_def)
  have l: "last_known_status initial_world absent_device
             \<noteq> Some (status_of (the (macAddress absent_device) \<in> {MAC}))"
    by (simp add: absent_device_facts status_of_def)
  from C4_status_update_iff_changed_and_circuit_closed [OF absent_device_facts(1),
         where w = initial_world and cfg = default_config and ev = quiet_env
           and present_set = "{MAC}" and by_mac = "devices_by_mac [absent_device]"
           and devices = "[absent_device]"] c l
  show ?thesis by (simp add: absent_device_facts(1))
qed

text \<open>
  The claim as stated fails: the derived status \<open>present\<close> differs from the last-known
  status \<open>absent\<close>, but the circuit is open and no mutation is sent.
\<close>

theorem C4_counterexample:
  "status_of (MAC \<in> {MAC}) = ''present''
   \<and> last_known_status open_circuit_world absent_device = Some ''absent''
   \<and> new_events open_circuit_world
        (update_status_of default_config clock_12_env {MAC} (devices_by_mac [absent_device])
           absent_device open_circuit_world) = []"
proof -
  have o: "circuit_open clock_12_env open_circuit_world"
    by (simp add: circuit_open_def clock_12_env_def open_circuit_world_def initial_world_def)
  from update_status_of_trace [OF absent_device_facts(1), where w = open_circuit_world
         and cfg = default_config and ev = clock_12_env and present_set = "{MAC}"
         and by_mac = "devices_by_mac [absent_device]"] o
  have "trace (update_status_of default_config clock_12_env {MAC} (devices_by_mac [absent_device])
           absent_device open_circuit_world) = trace open_circuit_world"
    by simp
  then show ?thesis
    by (simp add: new_events_def absent_device_facts status_of_def)
qed

end
